theory Spec2Isabelle
  imports Main "HOL-Library.Word"
begin

unbundle bit_operations_syntax

section \<open>Common types\<close>

text \<open>
  \<^verbatim>\<open>frame_id_t\<close> and \<^verbatim>\<open>page_id_t\<close> are 32-bit signed integers, \<^verbatim>\<open>size_t\<close> is a 64-bit
  unsigned integer. They are modelled as \<open>int\<close> and \<open>nat\<close>, with the conversions between
  them written out where the source casts.
\<close>

type_synonym frame_id_t = int
type_synonym page_id_t = int
type_synonym byte = "8 word"

text \<open>
  What the C++ leaves undefined (an index outside an array, dereferencing the end iterator,
  reading an uninitialised variable, signed overflow) and a failed \<^verbatim>\<open>assert\<close> are values
  of this type.
\<close>

datatype error =
    AssertionFailed
  | OutOfBounds
  | EndIteratorDeref
  | UninitialisedRead
  | SignedOverflow

definition size_t_of_frame_id :: "frame_id_t \<Rightarrow> nat" where
  \<comment> \<open>\<^verbatim>\<open>static_cast<size_t>(frame_id)\<close>: a negative value wraps around.\<close>
  "size_t_of_frame_id frame_id = nat (frame_id mod 2 ^ 64)"

definition frame_id_of_size_t :: "nat \<Rightarrow> frame_id_t" where
  \<comment> \<open>\<^verbatim>\<open>static_cast<frame_id_t>(hand)\<close>: the low 32 bits, read as two's complement.\<close>
  "frame_id_of_size_t h = (int h + 2 ^ 31) mod 2 ^ 32 - 2 ^ 31"

section \<open>Clock replacer (src/buffer/clock\_replacer.cpp)\<close>

text \<open>
  An entry of the clock is the pair \<open>(present, ref)\<close>. The header that names the constants
  is not part of the sources; the code tests \<^verbatim>\<open>entry.first\<close> for "exists" and
  \<^verbatim>\<open>entry.second\<close> for "referenced", so \<^verbatim>\<open>EXISTS\<close> and \<^verbatim>\<open>REF\<close> are \<open>True\<close>,
  \<^verbatim>\<open>NOT_EXISTS\<close> and \<^verbatim>\<open>NO_REF\<close> are \<open>False\<close>.
\<close>

record ClockReplacer =
  clock :: "(bool \<times> bool) list"
  hand :: nat
  rsize :: nat

definition size_dec :: "nat \<Rightarrow> nat" where
  \<comment> \<open>\<^verbatim>\<open>size--\<close> on a \<^verbatim>\<open>size_t\<close>\<close>
  "size_dec n = (n + 2 ^ 64 - 1) mod 2 ^ 64"

definition size_inc :: "nat \<Rightarrow> nat" where
  \<comment> \<open>\<^verbatim>\<open>size++\<close> on a \<^verbatim>\<open>size_t\<close>\<close>
  "size_inc n = (n + 1) mod 2 ^ 64"

definition ClockReplacer_new :: "nat \<Rightarrow> ClockReplacer" where
  \<comment> \<open>Modelled from the spec: the member initialisers of \<^verbatim>\<open>hand\<close> and \<^verbatim>\<open>size\<close> are in the
      missing header clock\_replacer.h; a new replacer has no present entry, so its counter
      is 0, and the hand starts at slot 0.\<close>
  "ClockReplacer_new num_pages =
     \<lparr>clock = replicate num_pages (False, False), hand = 0, rsize = 0\<rparr>"

text \<open>
  The body of \<^verbatim>\<open>while (true)\<close> in \<^verbatim>\<open>Victim\<close>. The loop has no bound of its own, so the
  model is a partial function: \<open>None\<close> is a sweep that never returns.
\<close>

partial_function (option) Victim_loop ::
  "ClockReplacer \<Rightarrow> (error + ClockReplacer \<times> frame_id_t) option" where
  "Victim_loop r =
     (if \<not> hand r < length (clock r) then Some (Inl AssertionFailed)
      else let entry = clock r ! hand r in
        if fst entry then
          (if snd entry then
             Victim_loop (r\<lparr>clock := (clock r)[hand r := (fst entry, False)],
                            hand := (hand r + 1) mod length (clock r)\<rparr>)
           else Some (Inr (r\<lparr>clock := (clock r)[hand r := (False, snd entry)],
                             rsize := size_dec (rsize r)\<rparr>,
                           frame_id_of_size_t (hand r))))
        else Victim_loop (r\<lparr>hand := (hand r + 1) mod length (clock r)\<rparr>))"

definition Victim ::
  "ClockReplacer \<Rightarrow> (error + ClockReplacer \<times> bool \<times> frame_id_t option) option" where
  \<comment> \<open>The result is the new replacer, the returned flag and what was written to
      \<^verbatim>\<open>*frame_id\<close> (\<open>None\<close>: nothing was written).\<close>
  "Victim r =
     (if rsize r = 0 then Some (Inr (r, False, None))
      else case Victim_loop r of
             None \<Rightarrow> None
           | Some (Inl e) \<Rightarrow> Some (Inl e)
           | Some (Inr (r', f)) \<Rightarrow> Some (Inr (r', True, Some f)))"

definition Pin :: "ClockReplacer \<Rightarrow> frame_id_t \<Rightarrow> error + ClockReplacer" where
  "Pin r frame_id =
     (let i = size_t_of_frame_id frame_id in
      if \<not> i \<le> length (clock r) then Inl AssertionFailed
      else if \<not> i < length (clock r) then Inl OutOfBounds
      else
        let pair = clock r ! i;
            r1 = (if fst pair
                  then r\<lparr>clock := (clock r)[i := (False, snd pair)], rsize := size_dec (rsize r)\<rparr>
                  else r)
        in Inr (r1\<lparr>clock := (clock r1)[i := (fst (clock r1 ! i), False)]\<rparr>))"

definition Unpin :: "ClockReplacer \<Rightarrow> frame_id_t \<Rightarrow> error + ClockReplacer" where
  "Unpin r frame_id =
     (let i = size_t_of_frame_id frame_id in
      if \<not> i \<le> length (clock r) then Inl AssertionFailed
      else if \<not> i < length (clock r) then Inl OutOfBounds
      else
        let pair = clock r ! i;
            r1 = (if \<not> fst pair
                  then r\<lparr>clock := (clock r)[i := (True, snd pair)], rsize := size_inc (rsize r)\<rparr>
                  else r)
        in Inr (r1\<lparr>clock := (clock r1)[i := (fst (clock r1 ! i), True)]\<rparr>))"

definition Size :: "ClockReplacer \<Rightarrow> nat" where
  "Size r = rsize r"

text \<open>
  One iteration of the sweep that does not select: the ref bit of a present and referenced
  slot is cleared, and the hand moves on (lines 35-37 and 46 of the source).
\<close>

definition sweep_step :: "ClockReplacer \<Rightarrow> ClockReplacer" where
  "sweep_step r =
     (let entry = clock r ! hand r;
          c = (if fst entry \<and> snd entry then (clock r)[hand r := (fst entry, False)] else clock r)
      in r\<lparr>clock := c, hand := (hand r + 1) mod length (clock r)\<rparr>)"

definition selects :: "ClockReplacer \<Rightarrow> bool" where
  \<comment> \<open>the slot under the hand is present and not referenced: the loop returns it\<close>
  "selects r = (fst (clock r ! hand r) \<and> \<not> snd (clock r ! hand r))"

definition passed_over :: "ClockReplacer \<Rightarrow> nat \<Rightarrow> nat set" where
  \<comment> \<open>the slots inspected by the first \<open>k\<close> iterations\<close>
  "passed_over r k = (\<lambda>j. (hand r + j) mod length (clock r)) ` {..<k}"

definition replacer_inv :: "ClockReplacer \<Rightarrow> bool" where
  \<comment> \<open>The class invariant: the hand is a slot, the counter is the number of present
      entries, and the slots are frame ids (\<^verbatim>\<open>frame_id_t\<close> is 32 bits wide).\<close>
  "replacer_inv r =
     (hand r < length (clock r) \<and> rsize r = length (filter fst (clock r)) \<and>
      length (clock r) < 2 ^ 31)"

text \<open>
  The states of a replacer of \<open>n\<close> slots: the constructed replacer, and what \<^verbatim>\<open>Pin\<close>,
  \<^verbatim>\<open>Unpin\<close> and \<^verbatim>\<open>Victim\<close> return from a state of the replacer. A frame id is a
  32-bit integer.
\<close>

inductive replacer_reachable :: "nat \<Rightarrow> ClockReplacer \<Rightarrow> bool" for n :: nat where
  rr_new: "replacer_reachable n (ClockReplacer_new n)"
| rr_pin:
    "replacer_reachable n r \<Longrightarrow> - (2 ^ 31) \<le> f \<Longrightarrow> f < 2 ^ 31 \<Longrightarrow> Pin r f = Inr r' \<Longrightarrow>
     replacer_reachable n r'"
| rr_unpin:
    "replacer_reachable n r \<Longrightarrow> - (2 ^ 31) \<le> f \<Longrightarrow> f < 2 ^ 31 \<Longrightarrow> Unpin r f = Inr r' \<Longrightarrow>
     replacer_reachable n r'"
| rr_victim:
    "replacer_reachable n r \<Longrightarrow> Victim r = Some (Inr (r', b, out)) \<Longrightarrow> replacer_reachable n r'"

section \<open>Disk manager (external collaborator)\<close>

text \<open>
  The disk manager is not part of the sources. It is modelled from section 6 of the
  specification as a store of page contents, the next id to allocate, and the list of the
  calls it has received, oldest first.
\<close>

datatype disk_call =
    ReadPageCall page_id_t
  | WritePageCall page_id_t "byte list"
  | AllocatePageCall
  | DeallocatePageCall page_id_t

record DiskManager =
  store :: "page_id_t \<Rightarrow> byte list"
  next_page_id :: page_id_t
  calls :: "disk_call list"

definition ReadPage :: "DiskManager \<Rightarrow> page_id_t \<Rightarrow> DiskManager \<times> byte list" where
  \<comment> \<open>Modelled from the spec: \<^verbatim>\<open>ReadPage(page_id, buf)\<close> fills the buffer with the page.\<close>
  "ReadPage d p = (d\<lparr>calls := calls d @ [ReadPageCall p]\<rparr>, store d p)"

definition WritePage :: "DiskManager \<Rightarrow> page_id_t \<Rightarrow> byte list \<Rightarrow> DiskManager" where
  \<comment> \<open>Modelled from the spec: \<^verbatim>\<open>WritePage(page_id, buf)\<close> writes the buffer under the id.\<close>
  "WritePage d p buf = d\<lparr>store := (store d)(p := buf), calls := calls d @ [WritePageCall p buf]\<rparr>"

definition AllocatePage :: "DiskManager \<Rightarrow> DiskManager \<times> page_id_t" where
  \<comment> \<open>Modelled from the spec: \<^verbatim>\<open>AllocatePage()\<close> returns a fresh dense id.\<close>
  "AllocatePage d =
     (d\<lparr>next_page_id := next_page_id d + 1, calls := calls d @ [AllocatePageCall]\<rparr>,
      next_page_id d)"

definition DeallocatePage :: "DiskManager \<Rightarrow> page_id_t \<Rightarrow> DiskManager" where
  \<comment> \<open>Modelled from the spec: \<^verbatim>\<open>DeallocatePage(page_id)\<close> releases an id (may be a no-op).\<close>
  "DeallocatePage d p = d\<lparr>calls := calls d @ [DeallocatePageCall p]\<rparr>"

section \<open>Buffer pool manager (src/buffer/buffer\_pool\_manager.cpp)\<close>

record Page =
  data :: "byte list"
  page_id :: page_id_t
  pin_count :: int
  is_dirty :: bool

definition PAGE_SIZE :: nat where
  \<comment> \<open>Modelled from the spec: the constant is in the missing header config.h.\<close>
  "PAGE_SIZE = 4096"

definition INVALID_PAGE_ID :: page_id_t where
  \<comment> \<open>Modelled from the spec: the constant is in the missing header config.h.\<close>
  "INVALID_PAGE_ID = - 1"

definition zero_data :: "byte list" where
  "zero_data = replicate PAGE_SIZE 0"

definition ResetMemory :: "Page \<Rightarrow> Page" where
  \<comment> \<open>Modelled from the spec: \<^verbatim>\<open>Page::ResetMemory\<close> is in the missing header page.h; it
      zeroes the frame's data.\<close>
  "ResetMemory page = page\<lparr>data := zero_data\<rparr>"

definition Page_new :: Page where
  \<comment> \<open>Modelled from the spec: the constructor of \<^verbatim>\<open>Page\<close> is in the missing header page.h.
      A frame that was never used holds no page, is not pinned, is clean, and its bytes
      are zero (the first \<^verbatim>\<open>NewPage\<close> calls of the scenarios return zeroed frames).\<close>
  "Page_new = \<lparr>data = zero_data, page_id = INVALID_PAGE_ID, pin_count = 0, is_dirty = False\<rparr>"

record BufferPoolManager =
  pages :: "Page list"
  page_table :: "page_id_t \<rightharpoonup> frame_id_t"
  free_list :: "frame_id_t list"
  replacer :: ClockReplacer
  disk_manager :: DiskManager

definition pool_size :: "BufferPoolManager \<Rightarrow> nat" where
  "pool_size s = length (pages s)"

definition BufferPoolManager_new :: "nat \<Rightarrow> DiskManager \<Rightarrow> BufferPoolManager" where
  "BufferPoolManager_new n d =
     \<lparr>pages = replicate n Page_new, page_table = Map.empty, free_list = map int [0..<n],
      replacer = ClockReplacer_new n, disk_manager = d\<rparr>"

definition emplace :: "('k \<rightharpoonup> 'v) \<Rightarrow> 'k \<Rightarrow> 'v \<Rightarrow> ('k \<rightharpoonup> 'v)" where
  \<comment> \<open>\<^verbatim>\<open>std::unordered_map::emplace\<close> keeps the entry of a key that is already there.\<close>
  "emplace m k v = (case m k of None \<Rightarrow> m(k \<mapsto> v) | Some _ \<Rightarrow> m)"

definition valid_frame :: "BufferPoolManager \<Rightarrow> frame_id_t \<Rightarrow> bool" where
  \<comment> \<open>\<^verbatim>\<open>pages_ + index\<close> points into the frame array\<close>
  "valid_frame s index = (0 \<le> index \<and> index < int (length (pages s)))"

definition frame :: "BufferPoolManager \<Rightarrow> frame_id_t \<Rightarrow> Page" where
  "frame s index = pages s ! nat index"

definition set_frame :: "BufferPoolManager \<Rightarrow> frame_id_t \<Rightarrow> Page \<Rightarrow> BufferPoolManager" where
  "set_frame s index page = s\<lparr>pages := (pages s)[nat index := page]\<rparr>"

text \<open>
  \<^verbatim>\<open>ReplaceAndUpdate\<close> in two parts. The first is lines 40 to 73 of the source: it chooses
  the frame, updates the page table and does the disk input and output. The second is
  lines 75 to 79: it overwrites the metadata of the frame. The returned \<^verbatim>\<open>Page *\<close> is
  the index of the frame.
\<close>

definition ReplaceAndUpdate_io ::
  "BufferPoolManager \<Rightarrow> page_id_t \<Rightarrow> bool \<Rightarrow> (error + BufferPoolManager \<times> frame_id_t) option" where
  "ReplaceAndUpdate_io s new_page_id new_page =
     (if \<not> (free_list s \<noteq> [] \<or> Size (replacer s) \<noteq> 0) then Some (Inl AssertionFailed)
      else case free_list s of
        index # rest \<Rightarrow>
          (let s1 = s\<lparr>free_list := rest, page_table := emplace (page_table s) new_page_id index\<rparr>
           in if \<not> new_page then
                (if \<not> valid_frame s1 index then Some (Inl OutOfBounds)
                 else let (d, buf) = ReadPage (disk_manager s1) new_page_id
                      in Some (Inr (set_frame (s1\<lparr>disk_manager := d\<rparr>) index
                                      ((frame s1 index)\<lparr>data := buf\<rparr>), index)))
              else Some (Inr (s1, index)))
      | [] \<Rightarrow>
          (case Victim (replacer s) of
             None \<Rightarrow> None
           | Some (Inl e) \<Rightarrow> Some (Inl e)
           | Some (Inr (r1, victim_res, out)) \<Rightarrow>
               (case out of
                  None \<Rightarrow> Some (Inl UninitialisedRead)
                | Some index \<Rightarrow>
                    if \<not> valid_frame s index then Some (Inl OutOfBounds)
                    else
                      let page = frame s index;
                          pt = emplace ((page_table s)(page_id page := None)) new_page_id index
                      in (case Pin r1 index of
                            Inl e \<Rightarrow> Some (Inl e)
                          | Inr r2 \<Rightarrow>
                              let d1 = (if is_dirty page
                                        then WritePage (disk_manager s) (page_id page) (data page)
                                        else disk_manager s);
                                  (d2, page2) = (if \<not> new_page
                                                 then (let (d, buf) = ReadPage d1 new_page_id
                                                       in (d, page\<lparr>data := buf\<rparr>))
                                                 else (d1, ResetMemory page))
                              in Some (Inr (set_frame (s\<lparr>page_table := pt, replacer := r2,
                                                         disk_manager := d2\<rparr>) index page2,
                                            index))))))"

definition ReplaceAndUpdate_meta ::
  "BufferPoolManager \<Rightarrow> frame_id_t \<Rightarrow> page_id_t \<Rightarrow> bool \<Rightarrow> error + BufferPoolManager" where
  "ReplaceAndUpdate_meta s index new_page_id new_page =
     (if \<not> valid_frame s index then Inl OutOfBounds
      else Inr (set_frame s index
                  ((frame s index)\<lparr>page_id := new_page_id, pin_count := 1, is_dirty := new_page\<rparr>)))"

definition ReplaceAndUpdate ::
  "BufferPoolManager \<Rightarrow> page_id_t \<Rightarrow> bool \<Rightarrow> (error + BufferPoolManager \<times> frame_id_t) option" where
  "ReplaceAndUpdate s new_page_id new_page =
     (case ReplaceAndUpdate_io s new_page_id new_page of
        None \<Rightarrow> None
      | Some (Inl e) \<Rightarrow> Some (Inl e)
      | Some (Inr (s1, index)) \<Rightarrow>
          (case ReplaceAndUpdate_meta s1 index new_page_id new_page of
             Inl e \<Rightarrow> Some (Inl e)
           | Inr s2 \<Rightarrow> Some (Inr (s2, index))))"

text \<open>
  The public operations. A returned \<^verbatim>\<open>Page *\<close> is \<open>Some index\<close>, and \<open>None\<close> for
  \<^verbatim>\<open>nullptr\<close>. The latches are not modelled: the operations run one at a time.
\<close>

definition FetchPage ::
  "BufferPoolManager \<Rightarrow> page_id_t \<Rightarrow> (error + BufferPoolManager \<times> frame_id_t option) option" where
  "FetchPage s p =
     (case page_table s p of
        Some index \<Rightarrow>
          if \<not> valid_frame s index then Some (Inl OutOfBounds)
          else
            let page = frame s index in
            if pin_count page = 2 ^ 31 - 1 then Some (Inl SignedOverflow)
            else
              let s1 = set_frame s index (page\<lparr>pin_count := pin_count page + 1\<rparr>) in
              if pin_count (frame s1 index) > 0 then
                (case Pin (replacer s1) index of
                   Inl e \<Rightarrow> Some (Inl e)
                 | Inr r1 \<Rightarrow> Some (Inr (s1\<lparr>replacer := r1\<rparr>, Some index)))
              else Some (Inr (s1, Some index))
      | None \<Rightarrow>
          if free_list s = [] \<and> Size (replacer s) = 0 then Some (Inr (s, None))
          else (case ReplaceAndUpdate s p False of
                  None \<Rightarrow> None
                | Some (Inl e) \<Rightarrow> Some (Inl e)
                | Some (Inr (s1, index)) \<Rightarrow> Some (Inr (s1, Some index))))"

definition UnpinPage ::
  "BufferPoolManager \<Rightarrow> page_id_t \<Rightarrow> bool \<Rightarrow> error + BufferPoolManager \<times> bool" where
  "UnpinPage s p dirty =
     (case page_table s p of
        None \<Rightarrow> Inl EndIteratorDeref
      | Some frame_index \<Rightarrow>
          if \<not> valid_frame s frame_index then Inl OutOfBounds
          else
            let page = frame s frame_index in
            if pin_count page \<le> 0 then Inr (s, False)
            else
              let s1 = set_frame s frame_index (page\<lparr>pin_count := pin_count page - 1\<rparr>) in
              (case (if pin_count (frame s1 frame_index) = 0
                     then Unpin (replacer s1) frame_index else Inr (replacer s1)) of
                 Inl e \<Rightarrow> Inl e
               | Inr r1 \<Rightarrow>
                   let page1 = frame s1 frame_index in
                   Inr (set_frame (s1\<lparr>replacer := r1\<rparr>) frame_index
                          (page1\<lparr>is_dirty := is_dirty page1 \<or> dirty\<rparr>), True)))"

definition FlushPage :: "BufferPoolManager \<Rightarrow> page_id_t \<Rightarrow> error + BufferPoolManager \<times> bool" where
  "FlushPage s p =
     (case page_table s p of
        None \<Rightarrow> Inr (s, False)
      | Some index \<Rightarrow>
          if \<not> valid_frame s index then Inl OutOfBounds
          else
            let page = frame s index in
            if page_id page \<noteq> INVALID_PAGE_ID \<and> is_dirty page then
              (let page1 = page\<lparr>is_dirty := False\<rparr>;
                   d = WritePage (disk_manager s) (page_id page1) (data page1)
               in Inr (set_frame (s\<lparr>disk_manager := d\<rparr>) index page1, True))
            else Inr (s, True))"

definition NewPage ::
  "BufferPoolManager \<Rightarrow> (error + BufferPoolManager \<times> page_id_t \<times> frame_id_t option) option" where
  \<comment> \<open>The result is the new state, what was written to \<^verbatim>\<open>*page_id\<close>, and the returned
      pointer.\<close>
  "NewPage s =
     (if free_list s = [] \<and> Size (replacer s) = 0 then Some (Inr (s, INVALID_PAGE_ID, None))
      else
        let (d, id) = AllocatePage (disk_manager s) in
        (case ReplaceAndUpdate (s\<lparr>disk_manager := d\<rparr>) id True of
           None \<Rightarrow> None
         | Some (Inl e) \<Rightarrow> Some (Inl e)
         | Some (Inr (s1, index)) \<Rightarrow> Some (Inr (s1, id, Some index))))"

definition DeletePage :: "BufferPoolManager \<Rightarrow> page_id_t \<Rightarrow> error + BufferPoolManager \<times> bool" where
  "DeletePage s p =
     (case page_table s p of
        None \<Rightarrow> Inr (s\<lparr>disk_manager := DeallocatePage (disk_manager s) p\<rparr>, True)
      | Some index \<Rightarrow>
          if \<not> valid_frame s index then Inl OutOfBounds
          else
            let page = frame s index in
            if pin_count page > 0 then Inr (s, False)
            else
              (case Pin (replacer s) index of
                 Inl e \<Rightarrow> Inl e
               | Inr r1 \<Rightarrow>
                   let s1 = s\<lparr>replacer := r1, page_table := (page_table s)(p := None),
                               free_list := free_list s @ [index],
                               disk_manager := DeallocatePage (disk_manager s) p\<rparr>;
                       page1 = (ResetMemory page)\<lparr>page_id := INVALID_PAGE_ID, is_dirty := False\<rparr>
                   in Inr (set_frame s1 index page1, False)))"

definition FlushAll_step :: "BufferPoolManager \<Rightarrow> nat \<Rightarrow> BufferPoolManager" where
  \<comment> \<open>the body of the loop of \<^verbatim>\<open>FlushAllPagesImpl\<close> at frame \<open>i\<close>\<close>
  "FlushAll_step s i =
     (let page = pages s ! i in
      if page_id page \<noteq> INVALID_PAGE_ID \<and> is_dirty page then
        s\<lparr>disk_manager := WritePage (disk_manager s) (page_id page) (data page),
          pages := (pages s)[i := page\<lparr>is_dirty := False\<rparr>]\<rparr>
      else s)"

definition FlushAllPages :: "BufferPoolManager \<Rightarrow> BufferPoolManager" where
  "FlushAllPages s = foldl FlushAll_step s [0..<pool_size s]"

definition victim_disk :: "BufferPoolManager \<Rightarrow> frame_id_t \<Rightarrow> DiskManager" where
  \<comment> \<open>the disk after lines 64 to 66 of \<^verbatim>\<open>ReplaceAndUpdate\<close> for the victim frame \<open>f\<close>\<close>
  "victim_disk s f =
     (if is_dirty (frame s f)
      then WritePage (disk_manager s) (page_id (frame s f)) (data (frame s f))
      else disk_manager s)"

text \<open>
  The invariant of the pool between operations: the replacer is well formed and has one
  slot per frame; the free list has no duplicates and its frames are zeroed, not pinned,
  outside the page table and outside the replacer; a page table entry is a frame that holds that page;
  a frame in the replacer is the page table's frame for its page.
\<close>

definition bpm_inv :: "BufferPoolManager \<Rightarrow> bool" where
  "bpm_inv s =
     (replacer_inv (replacer s) \<and> length (clock (replacer s)) = length (pages s) \<and>
      distinct (free_list s) \<and>
      (\<forall>f \<in> set (free_list s).
         valid_frame s f \<and> data (frame s f) = zero_data \<and> pin_count (frame s f) \<le> 0 \<and>
         \<not> fst (clock (replacer s) ! nat f) \<and> f \<notin> ran (page_table s)) \<and>
      (\<forall>p f. page_table s p = Some f \<longrightarrow> valid_frame s f \<and> page_id (frame s f) = p) \<and>
      (\<forall>i < length (pages s).
         fst (clock (replacer s) ! i) \<longrightarrow> page_table s (page_id (pages s ! i)) = Some (int i)))"

text \<open>
  The states of a pool of \<open>n\<close> frames: the constructed pool, and what the operations
  return from a state of the pool. A client may also write to the bytes of a frame it has
  pinned.
\<close>

inductive reachable :: "nat \<Rightarrow> BufferPoolManager \<Rightarrow> bool" for n :: nat where
  reach_new: "reachable n (BufferPoolManager_new n d)"
| reach_fetch: "reachable n s \<Longrightarrow> FetchPage s p = Some (Inr (s', r)) \<Longrightarrow> reachable n s'"
| reach_unpin: "reachable n s \<Longrightarrow> UnpinPage s p d = Inr (s', b) \<Longrightarrow> reachable n s'"
| reach_flush: "reachable n s \<Longrightarrow> FlushPage s p = Inr (s', b) \<Longrightarrow> reachable n s'"
| reach_new_page: "reachable n s \<Longrightarrow> NewPage s = Some (Inr (s', out, r)) \<Longrightarrow> reachable n s'"
| reach_delete: "reachable n s \<Longrightarrow> DeletePage s p = Inr (s', b) \<Longrightarrow> reachable n s'"
| reach_flush_all: "reachable n s \<Longrightarrow> reachable n (FlushAllPages s)"
| reach_write:
    "reachable n s \<Longrightarrow> valid_frame s f \<Longrightarrow> 0 < pin_count (frame s f) \<Longrightarrow>
     reachable n (set_frame s f ((frame s f)\<lparr>data := bytes\<rparr>))"

text \<open>
  The frames that \<^verbatim>\<open>FlushAllPagesImpl\<close> writes, in the order of its loop: those with a
  valid page id and a set dirty flag. \<open>write_frames\<close> is the disk after \<^verbatim>\<open>WritePage\<close> for the
  frames of a list, in order, with the page id and bytes they have in \<open>s\<close>.
\<close>

definition dirty_frames :: "BufferPoolManager \<Rightarrow> nat list" where
  "dirty_frames s =
     filter (\<lambda>i. page_id (pages s ! i) \<noteq> INVALID_PAGE_ID \<and> is_dirty (pages s ! i))
       [0..<pool_size s]"

definition write_frames :: "BufferPoolManager \<Rightarrow> nat list \<Rightarrow> DiskManager \<Rightarrow> DiskManager" where
  "write_frames s is d =
     foldl (\<lambda>d i. WritePage d (page_id (pages s ! i)) (data (pages s ! i))) d is"

text \<open>
  The states of a pool whose clients call \<^verbatim>\<open>FetchPage\<close> only with page ids that
  \<^verbatim>\<open>AllocatePage\<close> has already returned, and the property that such a pool keeps: every
  page id in the page table has been allocated, and a frame with a positive pin count is the
  page table's frame for its page id.
\<close>

inductive reachable_allocated :: "nat \<Rightarrow> BufferPoolManager \<Rightarrow> bool" for n :: nat where
  ra_new: "reachable_allocated n (BufferPoolManager_new n d)"
| ra_fetch:
    "reachable_allocated n s \<Longrightarrow> p < next_page_id (disk_manager s) \<Longrightarrow>
     FetchPage s p = Some (Inr (s', r)) \<Longrightarrow> reachable_allocated n s'"
| ra_unpin: "reachable_allocated n s \<Longrightarrow> UnpinPage s p d = Inr (s', b) \<Longrightarrow> reachable_allocated n s'"
| ra_flush: "reachable_allocated n s \<Longrightarrow> FlushPage s p = Inr (s', b) \<Longrightarrow> reachable_allocated n s'"
| ra_new_page:
    "reachable_allocated n s \<Longrightarrow> NewPage s = Some (Inr (s', out, r)) \<Longrightarrow> reachable_allocated n s'"
| ra_delete: "reachable_allocated n s \<Longrightarrow> DeletePage s p = Inr (s', b) \<Longrightarrow> reachable_allocated n s'"
| ra_flush_all: "reachable_allocated n s \<Longrightarrow> reachable_allocated n (FlushAllPages s)"
| ra_write:
    "reachable_allocated n s \<Longrightarrow> valid_frame s f \<Longrightarrow> 0 < pin_count (frame s f) \<Longrightarrow>
     reachable_allocated n (set_frame s f ((frame s f)\<lparr>data := bytes\<rparr>))"

definition pinned_resident :: "BufferPoolManager \<Rightarrow> bool" where
  "pinned_resident s =
     ((\<forall>p. page_table s p \<noteq> None \<longrightarrow> p < next_page_id (disk_manager s)) \<and>
      (\<forall>i<length (pages s).
         0 < pin_count (pages s ! i) \<longrightarrow> page_table s (page_id (pages s ! i)) = Some (int i)))"

section \<open>Hash table block page (src/storage/page/hash\_table\_block\_page.cpp)\<close>

text \<open>
  The page is the two bit maps followed by the slot array. \<^verbatim>\<open>BLOCK_ARRAY_SIZE\<close> is a
  macro of a header that is not part of the sources: it is the length of the slot array
  here, and the bit maps have \<^verbatim>\<open>(BLOCK_ARRAY_SIZE - 1) / 8 + 1\<close> bytes as the class
  declares. The bytes are \<^verbatim>\<open>std::atomic_char\<close>; the operators \<^verbatim>\<open>&\<close>, \<^verbatim>\<open>|=\<close> and
  \<^verbatim>\<open>&= ~\<close> with a mask below 256 act on the 8 bits of the byte. An index beyond an
  array is \<open>OutOfBounds\<close>.
\<close>

record ('k, 'v) HashTableBlockPage =
  occupied :: "byte list"
  readable :: "byte list"
  array :: "('k \<times> 'v) list"

definition BLOCK_ARRAY_SIZE :: "('k, 'v) HashTableBlockPage \<Rightarrow> nat" where
  "BLOCK_ARRAY_SIZE pg = length (array pg)"

definition block_page_wf :: "('k, 'v) HashTableBlockPage \<Rightarrow> bool" where
  "block_page_wf pg =
     (0 < BLOCK_ARRAY_SIZE pg \<and>
      length (occupied pg) = (BLOCK_ARRAY_SIZE pg - 1) div 8 + 1 \<and>
      length (readable pg) = (BLOCK_ARRAY_SIZE pg - 1) div 8 + 1)"

definition N_TH_BIT_MASK :: "byte list" where
  "N_TH_BIT_MASK = [0x80, 0x40, 0x20, 0x10, 0x08, 0x04, 0x02, 0x01]"

definition GET_N_TH_BIT :: "byte list \<Rightarrow> nat \<Rightarrow> error + bool" where
  "GET_N_TH_BIT char_arr bucket_ind =
     (let arr_index = bucket_ind div 8;
          bit_offset = bucket_ind mod 8
      in if arr_index < length char_arr
         then Inr ((char_arr ! arr_index) AND (N_TH_BIT_MASK ! bit_offset) \<noteq> 0)
         else Inl OutOfBounds)"

definition SET_N_TH_BIT :: "byte list \<Rightarrow> nat \<Rightarrow> error + byte list" where
  "SET_N_TH_BIT char_arr bucket_ind =
     (let arr_index = bucket_ind div 8;
          bit_offset = bucket_ind mod 8
      in if arr_index < length char_arr
         then Inr (char_arr[arr_index := (char_arr ! arr_index) OR (N_TH_BIT_MASK ! bit_offset)])
         else Inl OutOfBounds)"

definition UNSET_N_TH_BIT :: "byte list \<Rightarrow> nat \<Rightarrow> error + byte list" where
  "UNSET_N_TH_BIT char_arr bucket_ind =
     (let arr_index = bucket_ind div 8;
          bit_offset = bucket_ind mod 8
      in if arr_index < length char_arr
         then Inr (char_arr[arr_index :=
                     (char_arr ! arr_index) AND NOT (N_TH_BIT_MASK ! bit_offset)])
         else Inl OutOfBounds)"

definition KeyAt :: "('k, 'v) HashTableBlockPage \<Rightarrow> nat \<Rightarrow> error + 'k" where
  "KeyAt pg bucket_ind =
     (if bucket_ind < length (array pg) then Inr (fst (array pg ! bucket_ind))
      else Inl OutOfBounds)"

definition ValueAt :: "('k, 'v) HashTableBlockPage \<Rightarrow> nat \<Rightarrow> error + 'v" where
  "ValueAt pg bucket_ind =
     (if bucket_ind < length (array pg) then Inr (snd (array pg ! bucket_ind))
      else Inl OutOfBounds)"

definition Insert ::
  "('k, 'v) HashTableBlockPage \<Rightarrow> nat \<Rightarrow> 'k \<Rightarrow> 'v \<Rightarrow> error + ('k, 'v) HashTableBlockPage \<times> bool" where
  "Insert pg bucket_ind key val =
     (case GET_N_TH_BIT (readable pg) bucket_ind of
        Inl e \<Rightarrow> Inl e
      | Inr True \<Rightarrow> Inr (pg, False)
      | Inr False \<Rightarrow>
          (case SET_N_TH_BIT (occupied pg) bucket_ind of
             Inl e \<Rightarrow> Inl e
           | Inr occ \<Rightarrow>
               (case SET_N_TH_BIT (readable pg) bucket_ind of
                  Inl e \<Rightarrow> Inl e
                | Inr rd \<Rightarrow>
                    if bucket_ind < length (array pg)
                    then Inr (pg\<lparr>occupied := occ, readable := rd,
                                 array := (array pg)[bucket_ind := (key, val)]\<rparr>, True)
                    else Inl OutOfBounds)))"

definition Remove :: "('k, 'v) HashTableBlockPage \<Rightarrow> nat \<Rightarrow> error + ('k, 'v) HashTableBlockPage" where
  "Remove pg bucket_ind =
     (case UNSET_N_TH_BIT (readable pg) bucket_ind of
        Inl e \<Rightarrow> Inl e
      | Inr rd \<Rightarrow> Inr (pg\<lparr>readable := rd\<rparr>))"

definition IsOccupied :: "('k, 'v) HashTableBlockPage \<Rightarrow> nat \<Rightarrow> error + bool" where
  "IsOccupied pg bucket_ind = GET_N_TH_BIT (occupied pg) bucket_ind"

definition IsReadable :: "('k, 'v) HashTableBlockPage \<Rightarrow> nat \<Rightarrow> error + bool" where
  "IsReadable pg bucket_ind = GET_N_TH_BIT (readable pg) bucket_ind"

section \<open>Example states\<close>

text \<open>
  A clock of three slots with the hand on an absent slot, followed by a referenced and an
  unreferenced candidate, and the clock after \<^verbatim>\<open>Victim\<close>; the clock of two slots
  after \<^verbatim>\<open>ClockReplacer(2)\<close> and \<^verbatim>\<open>Unpin(0)\<close>, and that clock after \<^verbatim>\<open>Victim\<close>; an
  empty block page of ten slots.
\<close>

definition r_ex :: ClockReplacer where
  "r_ex = \<lparr>clock = [(False, False), (True, True), (True, False)], hand = 0, rsize = 2\<rparr>"

definition r_ex' :: ClockReplacer where
  "r_ex' = \<lparr>clock = [(False, False), (True, False), (False, False)], hand = 2, rsize = 1\<rparr>"

definition r_cex :: ClockReplacer where
  "r_cex = \<lparr>clock = [(True, True), (False, False)], hand = 0, rsize = 1\<rparr>"

definition r_cex' :: ClockReplacer where
  "r_cex' = \<lparr>clock = [(False, False), (False, False)], hand = 0, rsize = 0\<rparr>"

definition pg0 :: "(nat, nat) HashTableBlockPage" where
  "pg0 = \<lparr>occupied = [0, 0], readable = [0, 0], array = replicate 10 (0, 0)\<rparr>"

text \<open>
  A pool of two frames after two \<^verbatim>\<open>NewPage\<close> calls, a write of the client to page 0 and
  \<^verbatim>\<open>UnpinPage(0, true)\<close>; and the same pool after its first \<^verbatim>\<open>NewPage\<close>.
\<close>

definition d_ex :: DiskManager where
  "d_ex = \<lparr>store = (\<lambda>_. zero_data), next_page_id = 2,
           calls = [AllocatePageCall, AllocatePageCall]\<rparr>"

definition bytes_ex :: "byte list" where
  "bytes_ex = zero_data[0 := 7]"

definition s_ex :: BufferPoolManager where
  "s_ex = \<lparr>pages = [\<lparr>data = bytes_ex, page_id = 0, pin_count = 0, is_dirty = True\<rparr>,
                    \<lparr>data = zero_data, page_id = 1, pin_count = 1, is_dirty = True\<rparr>],
           page_table = [0 \<mapsto> 0, 1 \<mapsto> 1], free_list = [],
           replacer = \<lparr>clock = [(True, True), (False, False)], hand = 0, rsize = 1\<rparr>,
           disk_manager = d_ex\<rparr>"

definition s_free :: BufferPoolManager where
  "s_free = \<lparr>pages = [\<lparr>data = zero_data, page_id = 0, pin_count = 1, is_dirty = True\<rparr>, Page_new],
           page_table = [0 \<mapsto> 0], free_list = [1],
           replacer = ClockReplacer_new 2,
           disk_manager = \<lparr>store = (\<lambda>_. zero_data), next_page_id = 1, calls = [AllocatePageCall]\<rparr>\<rparr>"

text \<open>
  The disk before the first call, and the pool after the second \<^verbatim>\<open>NewPage\<close>.
\<close>

definition d_new :: DiskManager where
  "d_new = \<lparr>store = (\<lambda>_. zero_data), next_page_id = 0, calls = []\<rparr>"

definition s_two :: BufferPoolManager where
  "s_two = \<lparr>pages = [\<lparr>data = zero_data, page_id = 0, pin_count = 1, is_dirty = True\<rparr>,
                    \<lparr>data = zero_data, page_id = 1, pin_count = 1, is_dirty = True\<rparr>],
           page_table = [0 \<mapsto> 0, 1 \<mapsto> 1], free_list = [],
           replacer = ClockReplacer_new 2,
           disk_manager = d_ex\<rparr>"

text \<open>
  A pool of two frames after \<^verbatim>\<open>FetchPage(0)\<close> on the new pool, when no page has been
  allocated; after the \<^verbatim>\<open>NewPage\<close> that follows, which is given the page id 0 again;
  after \<^verbatim>\<open>UnpinPage(0, false)\<close>; and after a second \<^verbatim>\<open>NewPage\<close>.
\<close>

definition s_c1 :: BufferPoolManager where
  "s_c1 = \<lparr>pages = [\<lparr>data = zero_data, page_id = 0, pin_count = 1, is_dirty = False\<rparr>, Page_new],
           page_table = [0 \<mapsto> 0], free_list = [1],
           replacer = ClockReplacer_new 2,
           disk_manager = \<lparr>store = (\<lambda>_. zero_data), next_page_id = 0,
             calls = [ReadPageCall 0]\<rparr>\<rparr>"

definition s_c2 :: BufferPoolManager where
  "s_c2 = \<lparr>pages = [\<lparr>data = zero_data, page_id = 0, pin_count = 1, is_dirty = False\<rparr>,
                    \<lparr>data = zero_data, page_id = 0, pin_count = 1, is_dirty = True\<rparr>],
           page_table = [0 \<mapsto> 0], free_list = [],
           replacer = ClockReplacer_new 2,
           disk_manager = \<lparr>store = (\<lambda>_. zero_data), next_page_id = 1,
             calls = [ReadPageCall 0, AllocatePageCall]\<rparr>\<rparr>"

definition s_c3 :: BufferPoolManager where
  "s_c3 = \<lparr>pages = [\<lparr>data = zero_data, page_id = 0, pin_count = 0, is_dirty = False\<rparr>,
                    \<lparr>data = zero_data, page_id = 0, pin_count = 1, is_dirty = True\<rparr>],
           page_table = [0 \<mapsto> 0], free_list = [],
           replacer = \<lparr>clock = [(True, True), (False, False)], hand = 0, rsize = 1\<rparr>,
           disk_manager = \<lparr>store = (\<lambda>_. zero_data), next_page_id = 1,
             calls = [ReadPageCall 0, AllocatePageCall]\<rparr>\<rparr>"

definition s_col :: BufferPoolManager where
  "s_col = \<lparr>pages = [\<lparr>data = zero_data, page_id = 1, pin_count = 1, is_dirty = True\<rparr>,
                     \<lparr>data = zero_data, page_id = 0, pin_count = 1, is_dirty = True\<rparr>],
           page_table = [1 \<mapsto> 0], free_list = [],
           replacer = \<lparr>clock = [(False, False), (False, False)], hand = 0, rsize = 0\<rparr>,
           disk_manager = \<lparr>store = (\<lambda>_. zero_data), next_page_id = 2,
             calls = [ReadPageCall 0, AllocatePageCall, AllocatePageCall]\<rparr>\<rparr>"

section \<open>The clock replacer: sweep, termination and invariant\<close>

text \<open>
  The counter stays below \<open>2 ^ 64\<close>, so its decrement and increment do not wrap.
\<close>

lemma size_dec_pos: "0 < n \<Longrightarrow> n < 2 ^ 64 \<Longrightarrow> size_dec n = n - 1"
proof -
  assume a: "0 < n" "n < 2 ^ 64"
  then have "n + 2 ^ 64 - 1 = (n - 1) + 1 * 2 ^ 64" by simp
  then have "size_dec n = ((n - 1) + 1 * 2 ^ 64) mod 2 ^ 64" by (simp only: size_dec_def)
  also have "\<dots> = (n - 1) mod 2 ^ 64" by (simp only: mod_mult_self1)
  also have "\<dots> = n - 1" using a by simp
  finally show ?thesis .
qed

lemma size_inc_small: "n + 1 < 2 ^ 64 \<Longrightarrow> size_inc n = n + 1"
  by (simp add: size_inc_def)

text \<open>
  The loop of \<^verbatim>\<open>Victim\<close> is followed through \<open>sweep_step\<close>: an iteration at a slot that
  is not selected is one \<open>sweep_step\<close>, and the loop returns at the first state whose
  slot under the hand is selected.
\<close>

lemma sweep_step_length [simp]: "length (clock (sweep_step r)) = length (clock r)"
  by (simp add: sweep_step_def Let_def)

lemma sweep_step_hand [simp]: "hand (sweep_step r) = (hand r + 1) mod length (clock r)"
  by (simp add: sweep_step_def Let_def)

lemma sweep_step_rsize [simp]: "rsize (sweep_step r) = rsize r"
  by (simp add: sweep_step_def Let_def)

lemma sweep_iter_length [simp]: "length (clock ((sweep_step ^^ k) r)) = length (clock r)"
  by (induction k) simp_all

lemma sweep_iter_rsize [simp]: "rsize ((sweep_step ^^ k) r) = rsize r"
  by (induction k) simp_all

lemma sweep_iter_hand:
  "hand r < length (clock r) \<Longrightarrow> hand ((sweep_step ^^ k) r) = (hand r + k) mod length (clock r)"
  by (induction k) (simp_all add: mod_Suc_eq)

lemma sweep_step_hand_less:
  "hand r < length (clock r) \<Longrightarrow> hand (sweep_step r) < length (clock (sweep_step r))"
proof -
  assume h: "hand r < length (clock r)"
  then have "0 < length (clock r)" by auto
  then show ?thesis by simp
qed

lemma sweep_iter_hand_less:
  "hand r < length (clock r) \<Longrightarrow> hand ((sweep_step ^^ k) r) < length (clock r)"
proof -
  assume h: "hand r < length (clock r)"
  then have "0 < length (clock r)" by auto
  with h show ?thesis by (simp add: sweep_iter_hand)
qed

lemma Victim_loop_skip:
  "hand r < length (clock r) \<Longrightarrow> \<not> selects r \<Longrightarrow> Victim_loop r = Victim_loop (sweep_step r)"
  by (subst Victim_loop.simps) (auto simp: sweep_step_def selects_def Let_def)

lemma Victim_loop_select:
  "hand r < length (clock r) \<Longrightarrow> selects r \<Longrightarrow>
   Victim_loop r = Some (Inr (r\<lparr>clock := (clock r)[hand r := (False, False)],
                                rsize := size_dec (rsize r)\<rparr>, frame_id_of_size_t (hand r)))"
  by (subst Victim_loop.simps) (auto simp: selects_def Let_def)

lemma Victim_loop_iter:
  "hand r < length (clock r) \<Longrightarrow> (\<forall>j<k. \<not> selects ((sweep_step ^^ j) r)) \<Longrightarrow>
   Victim_loop r = Victim_loop ((sweep_step ^^ k) r)"
proof (induction k)
  case 0
  show ?case by simp
next
  case (Suc k)
  have h: "hand ((sweep_step ^^ k) r) < length (clock ((sweep_step ^^ k) r))"
    using Suc.prems(1) by (simp add: sweep_iter_hand_less)
  have "Victim_loop r = Victim_loop ((sweep_step ^^ k) r)"
    using Suc by simp
  also have "\<dots> = Victim_loop (sweep_step ((sweep_step ^^ k) r))"
    using Suc.prems(2) h by (intro Victim_loop_skip) simp_all
  finally show ?case by simp
qed

lemma sweep_step_clock:
  "i < length (clock r) \<Longrightarrow>
   clock (sweep_step r) ! i =
     (if i = hand r \<and> clock r ! i = (True, True) then (True, False) else clock r ! i)"
  by (cases "clock r ! hand r") (auto simp: sweep_step_def Let_def nth_list_update)

lemma passed_over_Suc:
  "passed_over r (Suc k) = insert ((hand r + k) mod length (clock r)) (passed_over r k)"
  by (auto simp: passed_over_def lessThan_Suc)

lemma sweep_iter_clock:
  "hand r < length (clock r) \<Longrightarrow> i < length (clock r) \<Longrightarrow>
   clock ((sweep_step ^^ k) r) ! i =
     (if i \<in> passed_over r k \<and> clock r ! i = (True, True) then (True, False) else clock r ! i)"
proof (induction k)
  case 0
  show ?case by (simp add: passed_over_def)
next
  case (Suc k)
  then show ?case
    by (auto simp: sweep_step_clock sweep_iter_hand passed_over_Suc)
qed

text \<open>
  Termination. From any hand position the sweep reaches a present slot after skipping
  absent ones, without changing the clock. If that slot is referenced, it loses its ref
  bit and the number of present and referenced slots goes down by one; so, by induction on
  that number, the sweep reaches a slot that it selects.
\<close>

lemma filter_update_length:
  "i < length xs \<Longrightarrow>
   length (filter P (xs[i := y])) + (if P (xs ! i) then 1 else 0) =
   length (filter P xs) + (if P y then 1 else 0)"
proof (induction xs arbitrary: i)
  case Nil
  then show ?case by simp
next
  case (Cons x xs)
  show ?case
  proof (cases i)
    case 0
    then show ?thesis by simp
  next
    case (Suc j)
    with Cons.prems have "j < length xs" by simp
    from Cons.IH [OF this] Suc show ?thesis by simp
  qed
qed

lemma reach_present:
  "hand r < length (clock r) \<Longrightarrow> fst (clock r ! ((hand r + d) mod length (clock r))) \<Longrightarrow>
   \<exists>k. fst (clock ((sweep_step ^^ k) r) ! hand ((sweep_step ^^ k) r)) \<and>
       clock ((sweep_step ^^ k) r) = clock r"
proof (induction d arbitrary: r)
  case 0
  then have "fst (clock ((sweep_step ^^ 0) r) ! hand ((sweep_step ^^ 0) r)) \<and>
       clock ((sweep_step ^^ 0) r) = clock r" by simp
  then show ?case by blast
next
  case (Suc d)
  show ?case
  proof (cases "fst (clock r ! hand r)")
    case True
    then have "fst (clock ((sweep_step ^^ 0) r) ! hand ((sweep_step ^^ 0) r)) \<and>
       clock ((sweep_step ^^ 0) r) = clock r" by simp
    then show ?thesis by blast
  next
    case False
    have n: "0 < length (clock r)" using Suc.prems(1) by auto
    have c: "clock (sweep_step r) = clock r"
      using False by (simp add: sweep_step_def Let_def)
    have h: "hand (sweep_step r) < length (clock (sweep_step r))"
      using Suc.prems(1) by (rule sweep_step_hand_less)
    have "(hand (sweep_step r) + d) mod length (clock (sweep_step r)) =
          (hand r + Suc d) mod length (clock r)"
      by (simp add: mod_simps)
    with Suc.prems(2) c
    have "fst (clock (sweep_step r) ! ((hand (sweep_step r) + d) mod length (clock (sweep_step r))))"
      by simp
    from Suc.IH [OF h this] obtain k where
      k: "fst (clock ((sweep_step ^^ k) (sweep_step r)) ! hand ((sweep_step ^^ k) (sweep_step r)))"
         "clock ((sweep_step ^^ k) (sweep_step r)) = clock (sweep_step r)"
      by blast
    have "(sweep_step ^^ k) (sweep_step r) = (sweep_step ^^ Suc k) r"
      by (simp add: funpow_swap1)
    with k c have "fst (clock ((sweep_step ^^ Suc k) r) ! hand ((sweep_step ^^ Suc k) r)) \<and>
       clock ((sweep_step ^^ Suc k) r) = clock r" by simp
    then show ?thesis by blast
  qed
qed

lemma exists_select:
  "length (filter (\<lambda>e. fst e \<and> snd e) (clock r)) = m \<Longrightarrow> hand r < length (clock r) \<Longrightarrow>
   i < length (clock r) \<Longrightarrow> fst (clock r ! i) \<Longrightarrow> \<exists>k. selects ((sweep_step ^^ k) r)"
proof (induction m arbitrary: r i)
  case 0
  have "(hand r + (i + length (clock r) - hand r)) mod length (clock r) = i"
    using "0.prems" by simp
  with "0.prems" reach_present [of r "i + length (clock r) - hand r"]
  obtain k where k: "fst (clock ((sweep_step ^^ k) r) ! hand ((sweep_step ^^ k) r))"
    "clock ((sweep_step ^^ k) r) = clock r" by auto
  have hk: "hand ((sweep_step ^^ k) r) < length (clock r)"
    using "0.prems" by (simp add: sweep_iter_hand_less)
  have "\<not> (fst e \<and> snd e)" if "e \<in> set (clock r)" for e
    using "0.prems"(1) that by (auto simp: filter_empty_conv)
  with hk k have "selects ((sweep_step ^^ k) r)"
    by (simp add: selects_def)
  then show ?case by blast
next
  case (Suc m)
  have "(hand r + (i + length (clock r) - hand r)) mod length (clock r) = i"
    using Suc.prems by simp
  with Suc.prems reach_present [of r "i + length (clock r) - hand r"]
  obtain k where k: "fst (clock ((sweep_step ^^ k) r) ! hand ((sweep_step ^^ k) r))"
    "clock ((sweep_step ^^ k) r) = clock r" by auto
  define r1 where "r1 = (sweep_step ^^ k) r"
  have hk: "hand r1 < length (clock r1)" and c1: "clock r1 = clock r"
    and p1: "fst (clock r1 ! hand r1)"
    using Suc.prems k by (simp_all add: sweep_iter_hand_less r1_def)
  show ?case
  proof (cases "snd (clock r1 ! hand r1)")
    case False
    with p1 have "selects ((sweep_step ^^ k) r)" by (simp add: selects_def r1_def)
    then show ?thesis by blast
  next
    case True
    define r2 where "r2 = sweep_step r1"
    have c2: "clock r2 = (clock r1)[hand r1 := (True, False)]"
      using True p1 by (simp add: r2_def sweep_step_def Let_def)
    have "length (filter (\<lambda>e. fst e \<and> snd e) (clock r2)) + 1 =
          length (filter (\<lambda>e. fst e \<and> snd e) (clock r1))"
      using filter_update_length [OF hk, of "\<lambda>e. fst e \<and> snd e" "(True, False)"] True p1 c2
      by simp
    with Suc.prems(1) c1 have m2: "length (filter (\<lambda>e. fst e \<and> snd e) (clock r2)) = m"
      by simp
    have h2: "hand r2 < length (clock r2)"
      unfolding r2_def using hk by (rule sweep_step_hand_less)
    have i2: "hand r1 < length (clock r2)" "fst (clock r2 ! hand r1)"
      using hk c2 by simp_all
    from Suc.IH [OF m2 h2 i2] obtain k2 where "selects ((sweep_step ^^ k2) r2)" by blast
    then have "selects ((sweep_step ^^ Suc (k2 + k)) r)"
      by (simp add: funpow_add funpow_swap1 r2_def r1_def)
    then show ?thesis by blast
  qed
qed

lemma first_select:
  assumes "hand r < length (clock r)" "i < length (clock r)" "fst (clock r ! i)"
  shows "\<exists>k. selects ((sweep_step ^^ k) r) \<and> (\<forall>j<k. \<not> selects ((sweep_step ^^ j) r))"
proof -
  from exists_select [OF refl assms] obtain k0 where "selects ((sweep_step ^^ k0) r)" by blast
  then have "selects ((sweep_step ^^ (LEAST k. selects ((sweep_step ^^ k) r))) r)"
    by (rule LeastI)
  moreover have "\<forall>j<(LEAST k. selects ((sweep_step ^^ k) r)). \<not> selects ((sweep_step ^^ j) r)"
    using not_less_Least by blast
  ultimately show ?thesis by blast
qed

text \<open>
  Whatever the state of the replacer, a sweep that returns leaves the hand on the slot it
  returns, and \<^verbatim>\<open>Victim\<close> returns false only when the counter is 0.
\<close>

lemma Victim_loop_result_aux:
  assumes "Victim_loop r = Some y"
  shows "\<forall>r' f. y = Inr (r', f) \<longrightarrow>
        f = frame_id_of_size_t (hand r') \<and> hand r' < length (clock r') \<and>
        clock r' ! hand r' = (False, False)"
  by (rule Victim_loop.raw_induct [OF _ assms]) (auto simp: Let_def split: if_splits)

lemma Victim_loop_result:
  "Victim_loop r = Some (Inr (r', f)) \<Longrightarrow>
     f = frame_id_of_size_t (hand r') \<and> hand r' < length (clock r') \<and>
     clock r' ! hand r' = (False, False)"
  using Victim_loop_result_aux by blast

lemma Victim_false_iff:
  "Victim r = Some (Inr (r', False, out)) \<longleftrightarrow> rsize r = 0 \<and> r' = r \<and> out = None"
  by (auto simp: Victim_def split: option.splits sum.splits)

text \<open>
  The result of \<^verbatim>\<open>Victim\<close> in a well-formed replacer with a positive counter.
\<close>

lemma Victim_sweep_aux:
  assumes inv: "replacer_inv r" and pos: "0 < rsize r"
  shows "\<exists>k r'. 
     Victim r = Some (Inr (r', True, Some (int (hand r')))) \<and>
     hand r' = (hand r + k) mod length (clock r) \<and>
     (\<forall>j<k. \<not> selects ((sweep_step ^^ j) r)) \<and>
     clock ((sweep_step ^^ k) r) ! hand r' = (True, False) \<and>
     rsize r' = rsize r - 1 \<and>
     length (clock r') = length (clock r) \<and>
     (\<forall>i<length (clock r). clock r' ! i =
        (if i = hand r' then (False, False)
         else if i \<in> passed_over r k \<and> clock r ! i = (True, True) then (True, False)
         else clock r ! i))"
proof -
  let ?n = "length (clock r)"
  have h: "hand r < ?n" and sz: "rsize r = length (filter fst (clock r))" and n31: "?n < 2 ^ 31"
    using inv by (simp_all add: replacer_inv_def)
  from pos sz have "filter fst (clock r) \<noteq> []" by auto
  then obtain e where "e \<in> set (clock r)" "fst e"
    by (auto simp: filter_empty_conv)
  then obtain i where i: "i < ?n" "fst (clock r ! i)"
    by (auto simp: in_set_conv_nth)
  from first_select [OF h i] obtain k where
    sel: "selects ((sweep_step ^^ k) r)" and nsel: "\<forall>j<k. \<not> selects ((sweep_step ^^ j) r)"
    by blast
  define rs where "rs = (sweep_step ^^ k) r"
  define r' where "r' = rs\<lparr>clock := (clock rs)[hand rs := (False, False)], rsize := size_dec (rsize rs)\<rparr>"
  have ls: "length (clock rs) = ?n"
    by (simp add: rs_def)
  have hs: "hand rs < length (clock rs)"
    using h by (simp add: rs_def sweep_iter_hand_less)
  have hs': "hand rs = (hand r + k) mod ?n"
    using h by (simp add: rs_def sweep_iter_hand)
  have "Victim_loop r = Victim_loop rs"
    unfolding rs_def using h nsel by (rule Victim_loop_iter)
  also have "\<dots> = Some (Inr (r', frame_id_of_size_t (hand rs)))"
    unfolding r'_def using hs sel [folded rs_def] by (rule Victim_loop_select)
  also have "frame_id_of_size_t (hand rs) = int (hand rs)"
    using hs ls n31 by (simp add: frame_id_of_size_t_def)
  finally have v: "Victim r = Some (Inr (r', True, Some (int (hand r'))))"
    using pos by (simp add: Victim_def r'_def)
  have "length (filter fst (clock r)) < 2 ^ 31"
    using length_filter_le n31 by (rule le_less_trans)
  with sz have "rsize r < 2 ^ 64"
    by simp
  with pos have d: "size_dec (rsize r) = rsize r - 1"
    by (rule size_dec_pos)
  have cs: "clock rs ! hand rs = (True, False)"
    using sel by (simp add: selects_def rs_def prod_eq_iff)
  have "clock r' ! i =
        (if i = hand r' then (False, False)
         else if i \<in> passed_over r k \<and> clock r ! i = (True, True) then (True, False)
         else clock r ! i)" if "i < ?n" for i
    using that h ls sweep_iter_clock [OF h that, of k]
    by (simp add: r'_def nth_list_update rs_def)
  with v hs' nsel cs d ls show ?thesis
    by (intro exI [of _ k] exI [of _ r']) (simp add: r'_def rs_def)
qed

text \<open>
  \<^verbatim>\<open>Pin\<close>, \<^verbatim>\<open>Unpin\<close> and \<^verbatim>\<open>Victim\<close> preserve the class invariant.
\<close>

lemma count_present_bound:
  assumes "replacer_inv r"
  shows "rsize r \<le> length (clock r)" "rsize r < 2 ^ 31"
proof -
  show "rsize r \<le> length (clock r)"
    using assms by (simp add: replacer_inv_def)
  moreover have "length (clock r) < 2 ^ 31"
    using assms by (simp add: replacer_inv_def)
  ultimately show "rsize r < 2 ^ 31"
    by (rule le_less_trans)
qed

lemma Pin_inv:
  assumes inv: "replacer_inv r" and i: "0 \<le> f" "f < int (length (clock r))"
  shows "\<exists>r'. Pin r f = Inr r' \<and> replacer_inv r' \<and> length (clock r') = length (clock r) \<and>
           hand r' = hand r \<and>
           clock r' = (clock r)[nat f := (False, False)] \<and>
           rsize r' = (if fst (clock r ! nat f) then rsize r - 1 else rsize r)"
proof -
  have n31: "length (clock r) < 2 ^ 31" and h: "hand r < length (clock r)"
    and sz: "rsize r = length (filter fst (clock r))"
    using inv by (simp_all add: replacer_inv_def)
  have c: "size_t_of_frame_id f = nat f"
    using i n31 by (simp add: size_t_of_frame_id_def)
  have lt: "nat f < length (clock r)" using i by simp
  show ?thesis
  proof (cases "fst (clock r ! nat f)")
    case True
    from filter_update_length [OF lt, of fst "(False, False)"] True
    have cnt: "length (filter fst ((clock r)[nat f := (False, False)])) + 1 = length (filter fst (clock r))"
      by simp
    then have "0 < rsize r" using sz by linarith
    moreover have "rsize r < 2 ^ 64" using count_present_bound(2) [OF inv] by simp
    ultimately have d: "size_dec (rsize r) = rsize r - 1" by (rule size_dec_pos)
    have "Pin r f = Inr (r\<lparr>clock := (clock r)[nat f := (False, False)], rsize := rsize r - 1\<rparr>)"
      using True lt c d by (simp add: Pin_def Let_def)
    then show ?thesis
      using True cnt sz h n31 by (simp add: replacer_inv_def)
  next
    case False
    from filter_update_length [OF lt, of fst "(False, False)"] False
    have cnt: "length (filter fst ((clock r)[nat f := (False, False)])) = length (filter fst (clock r))"
      by simp
    have "Pin r f = Inr (r\<lparr>clock := (clock r)[nat f := (False, False)]\<rparr>)"
      using False lt c by (simp add: Pin_def Let_def)
    then show ?thesis
      using False cnt sz h n31 by (simp add: replacer_inv_def)
  qed
qed

lemma Unpin_inv:
  assumes inv: "replacer_inv r" and i: "0 \<le> f" "f < int (length (clock r))"
  shows "\<exists>r'. Unpin r f = Inr r' \<and> replacer_inv r' \<and> length (clock r') = length (clock r) \<and>
           hand r' = hand r \<and>
           clock r' = (clock r)[nat f := (True, True)] \<and>
           rsize r' = (if fst (clock r ! nat f) then rsize r else rsize r + 1)"
proof -
  have n31: "length (clock r) < 2 ^ 31" and h: "hand r < length (clock r)"
    and sz: "rsize r = length (filter fst (clock r))"
    using inv by (simp_all add: replacer_inv_def)
  have c: "size_t_of_frame_id f = nat f"
    using i n31 by (simp add: size_t_of_frame_id_def)
  have lt: "nat f < length (clock r)" using i by simp
  show ?thesis
  proof (cases "fst (clock r ! nat f)")
    case True
    from filter_update_length [OF lt, of fst "(True, True)"] True
    have cnt: "length (filter fst ((clock r)[nat f := (True, True)])) = length (filter fst (clock r))"
      by simp
    have "Unpin r f = Inr (r\<lparr>clock := (clock r)[nat f := (True, True)]\<rparr>)"
      using True lt c by (simp add: Unpin_def Let_def)
    then show ?thesis
      using True cnt sz h n31 by (simp add: replacer_inv_def)
  next
    case False
    from filter_update_length [OF lt, of fst "(True, True)"] False
    have cnt: "length (filter fst ((clock r)[nat f := (True, True)])) = length (filter fst (clock r)) + 1"
      by simp
    have "rsize r + 1 < 2 ^ 64" using count_present_bound(2) [OF inv] by simp
    then have d: "size_inc (rsize r) = rsize r + 1" by (rule size_inc_small)
    have "Unpin r f = Inr (r\<lparr>clock := (clock r)[nat f := (True, True)], rsize := rsize r + 1\<rparr>)"
      using False lt c d by (simp add: Unpin_def Let_def)
    then show ?thesis
      using False cnt sz h n31 by (simp add: replacer_inv_def)
  qed
qed

lemma ClockReplacer_new_inv: "0 < n \<Longrightarrow> n < 2 ^ 31 \<Longrightarrow> replacer_inv (ClockReplacer_new n)"
  by (simp add: replacer_inv_def ClockReplacer_new_def)

lemma present_count_clear:
  assumes len: "length c' = length c" and f: "f < length c" "fst (c ! f)"
    and eq: "\<forall>i<length c. fst (c' ! i) = (i \<noteq> f \<and> fst (c ! i))"
  shows "length (filter fst c') + 1 = length (filter fst c)"
proof -
  have "map fst c' ! i = (map fst c)[f := False] ! i" if "i < length c" for i
    using that len eq f by (cases "i = f") simp_all
  then have m: "map fst c' = (map fst c)[f := False]"
    using len by (intro nth_equalityI) simp_all
  have "length (filter fst c') = length (filter (\<lambda>b. b) (map fst c'))"
    by (simp add: length_filter_map comp_def)
  also have "\<dots> + 1 = length (filter (\<lambda>b. b) (map fst c))"
    using filter_update_length [of f "map fst c" "\<lambda>b. b" False] f by (simp add: m)
  also have "\<dots> = length (filter fst c)"
    by (simp add: length_filter_map comp_def)
  finally show ?thesis by simp
qed

lemma Victim_inv:
  assumes inv: "replacer_inv r" and pos: "0 < rsize r"
  shows "\<exists>r' f. Victim r = Some (Inr (r', True, Some (int f))) \<and> f < length (clock r) \<and>
           hand r' = f \<and> fst (clock r ! f) \<and> replacer_inv r' \<and>
           length (clock r') = length (clock r) \<and> clock r' ! f = (False, False) \<and>
           (\<forall>i<length (clock r). fst (clock r' ! i) = (i \<noteq> f \<and> fst (clock r ! i)))"
proof -
  from Victim_sweep_aux [OF inv pos] obtain k r' where
    v: "Victim r = Some (Inr (r', True, Some (int (hand r'))))"
    and h: "hand r' = (hand r + k) mod length (clock r)"
    and sel: "clock ((sweep_step ^^ k) r) ! hand r' = (True, False)"
    and sz: "rsize r' = rsize r - 1"
    and len: "length (clock r') = length (clock r)"
    and sl: "\<forall>i<length (clock r). clock r' ! i =
        (if i = hand r' then (False, False)
         else if i \<in> passed_over r k \<and> clock r ! i = (True, True) then (True, False)
         else clock r ! i)"
    by blast
  have hr: "hand r < length (clock r)" and cnt: "rsize r = length (filter fst (clock r))"
    and n31: "length (clock r) < 2 ^ 31"
    using inv by (simp_all add: replacer_inv_def)
  have "0 < length (clock r)" using hr by auto
  then have f: "hand r' < length (clock r)"
    unfolding h by (rule mod_less_divisor)
  have pres: "fst (clock r ! hand r')"
    using sel sweep_iter_clock [OF hr f, of k] by (auto split: if_splits)
  have fsts: "\<forall>i<length (clock r). fst (clock r' ! i) = (i \<noteq> hand r' \<and> fst (clock r ! i))"
    using sl by auto
  have "length (filter fst (clock r')) + 1 = length (filter fst (clock r))"
    using len f pres fsts by (rule present_count_clear)
  then have "rsize r' = length (filter fst (clock r'))"
    using sz cnt by linarith
  then have "replacer_inv r'"
    using f len n31 by (simp add: replacer_inv_def)
  moreover have "clock r' ! hand r' = (False, False)"
    using sl f by simp
  ultimately show ?thesis
    using v f pres len fsts by blast
qed

lemma ClockReplacer_new_length: "length (clock (ClockReplacer_new n)) = n"
  by (simp add: ClockReplacer_new_def)

lemma size_t_of_frame_id_32:
  assumes "n < 2 ^ 31" "- (2 ^ 31) \<le> f" "f < 2 ^ 31"
  shows "0 \<le> f \<Longrightarrow> size_t_of_frame_id f = nat f"
    and "f < 0 \<Longrightarrow> n < size_t_of_frame_id f"
proof -
  show "size_t_of_frame_id f = nat f" if "0 \<le> f"
    using that assms by (simp add: size_t_of_frame_id_def)
  show "n < size_t_of_frame_id f" if "f < 0"
  proof -
    have "0 \<le> f + 2 ^ 64" "f + 2 ^ 64 < 2 ^ 64"
      using that assms(2) by simp_all
    then have "(f + 2 ^ 64) mod 2 ^ 64 = f + 2 ^ 64"
      by (rule mod_pos_pos_trivial)
    then have "f mod 2 ^ 64 = f + 2 ^ 64"
      by (simp only: mod_add_self2)
    then show ?thesis
      using assms by (simp add: size_t_of_frame_id_def)
  qed
qed

lemma Pin_in_bounds:
  assumes "length (clock r) < 2 ^ 31" "- (2 ^ 31) \<le> f" "f < 2 ^ 31" "Pin r f = Inr r'"
  shows "0 \<le> f \<and> f < int (length (clock r))"
proof (cases "0 \<le> f")
  case True
  with size_t_of_frame_id_32(1) [OF assms(1-3)] assms(4) show ?thesis
    by (auto simp: Pin_def Let_def split: if_splits)
next
  case False
  with size_t_of_frame_id_32(2) [OF assms(1-3)] assms(4) show ?thesis
    by (auto simp: Pin_def Let_def split: if_splits)
qed

lemma Unpin_in_bounds:
  assumes "length (clock r) < 2 ^ 31" "- (2 ^ 31) \<le> f" "f < 2 ^ 31" "Unpin r f = Inr r'"
  shows "0 \<le> f \<and> f < int (length (clock r))"
proof (cases "0 \<le> f")
  case True
  with size_t_of_frame_id_32(1) [OF assms(1-3)] assms(4) show ?thesis
    by (auto simp: Unpin_def Let_def split: if_splits)
next
  case False
  with size_t_of_frame_id_32(2) [OF assms(1-3)] assms(4) show ?thesis
    by (auto simp: Unpin_def Let_def split: if_splits)
qed

text \<open>
  The class invariant holds in every state that a replacer of at least one and fewer than
  \<open>2 ^ 31\<close> slots reaches.
\<close>

theorem replacer_reachable_inv:
  assumes "0 < n" "n < 2 ^ 31" "replacer_reachable n r"
  shows "replacer_inv r"
  using assms(3)
proof (induction rule: replacer_reachable.induct)
  case rr_new
  show ?case using assms(1,2) by (rule ClockReplacer_new_inv)
next
  case (rr_pin r f r')
  then have inv: "replacer_inv r" by simp
  then have "length (clock r) < 2 ^ 31" by (simp add: replacer_inv_def)
  from Pin_in_bounds [OF this rr_pin.hyps(2-4)] Pin_inv [OF inv, of f] rr_pin.hyps(4)
  show ?case by auto
next
  case (rr_unpin r f r')
  then have inv: "replacer_inv r" by simp
  then have "length (clock r) < 2 ^ 31" by (simp add: replacer_inv_def)
  from Unpin_in_bounds [OF this rr_unpin.hyps(2-4)] Unpin_inv [OF inv, of f] rr_unpin.hyps(4)
  show ?case by auto
next
  case (rr_victim r r' b out)
  then have inv: "replacer_inv r" by simp
  show ?case
  proof (cases "rsize r = 0")
    case True
    with rr_victim.hyps(2) inv show ?thesis by (simp add: Victim_def)
  next
    case False
    then have "0 < rsize r" by simp
    from Victim_inv [OF inv this] rr_victim.hyps(2) show ?thesis by auto
  qed
qed

section \<open>The clock replacer: claims\<close>

text \<open>
  Claim C5. In a well-formed replacer, \<^verbatim>\<open>Victim\<close> returns false iff the counter is 0, and
  then changes nothing. With a positive counter the sweep terminates and returns true after
  some number \<open>k\<close> of iterations that did not select: the hand and the written frame id
  are the slot \<open>(hand + k) mod n\<close>; at the moment of selection that slot was present with
  its ref bit clear; its present bit is cleared and the counter is decremented by one; the
  ref bit of every present and referenced slot passed over is cleared, and every other
  slot is as it was.
\<close>

theorem Victim_sweep:
  assumes "replacer_inv r"
  shows "((\<exists>r' out. Victim r = Some (Inr (r', False, out))) \<longleftrightarrow> rsize r = 0) \<and>
    (rsize r = 0 \<longrightarrow> Victim r = Some (Inr (r, False, None))) \<and>
    (0 < rsize r \<longrightarrow>
      (\<exists>k r'. Victim r = Some (Inr (r', True, Some (int (hand r')))) \<and>
         hand r' = (hand r + k) mod length (clock r) \<and>
         (\<forall>j<k. \<not> selects ((sweep_step ^^ j) r)) \<and>
         clock ((sweep_step ^^ k) r) ! hand r' = (True, False) \<and>
         rsize r' = rsize r - 1 \<and>
         length (clock r') = length (clock r) \<and>
         (\<forall>i<length (clock r). clock r' ! i =
            (if i = hand r' then (False, False)
             else if i \<in> passed_over r k \<and> clock r ! i = (True, True) then (True, False)
             else clock r ! i))))"
proof (intro conjI impI)
  show "(\<exists>r' out. Victim r = Some (Inr (r', False, out))) \<longleftrightarrow> rsize r = 0"
    using Victim_false_iff by blast
next
  assume "rsize r = 0"
  then show "Victim r = Some (Inr (r, False, None))"
    by (simp add: Victim_def)
next
  assume "0 < rsize r"
  with assms show "\<exists>k r'. Victim r = Some (Inr (r', True, Some (int (hand r')))) \<and>
         hand r' = (hand r + k) mod length (clock r) \<and>
         (\<forall>j<k. \<not> selects ((sweep_step ^^ j) r)) \<and>
         clock ((sweep_step ^^ k) r) ! hand r' = (True, False) \<and>
         rsize r' = rsize r - 1 \<and>
         length (clock r') = length (clock r) \<and>
         (\<forall>i<length (clock r). clock r' ! i =
            (if i = hand r' then (False, False)
             else if i \<in> passed_over r k \<and> clock r ! i = (True, True) then (True, False)
             else clock r ! i))"
    by (rule Victim_sweep_aux)
qed

text \<open>
  The sweep on a clock of three slots: slot 0 is absent and skipped, slot 1 loses its ref
  bit, slot 2 is the victim.
\<close>

theorem Victim_sweep_witness:
  "replacer_inv r_ex \<and> 0 < rsize r_ex \<and> Victim r_ex = Some (Inr (r_ex', True, Some 2)) \<and>
   (\<exists>k r'. Victim r_ex = Some (Inr (r', True, Some (int (hand r')))) \<and>
         hand r' = (hand r_ex + k) mod length (clock r_ex) \<and>
         (\<forall>j<k. \<not> selects ((sweep_step ^^ j) r_ex)) \<and>
         clock ((sweep_step ^^ k) r_ex) ! hand r' = (True, False) \<and>
         rsize r' = rsize r_ex - 1 \<and>
         length (clock r') = length (clock r_ex) \<and>
         (\<forall>i<length (clock r_ex). clock r' ! i =
            (if i = hand r' then (False, False)
             else if i \<in> passed_over r_ex k \<and> clock r_ex ! i = (True, True) then (True, False)
             else clock r_ex ! i)))"
proof -
  have a: "replacer_inv r_ex" by (simp add: replacer_inv_def r_ex_def)
  have b: "0 < rsize r_ex" by (simp add: r_ex_def)
  have c: "Victim r_ex = Some (Inr (r_ex', True, Some 2))"
    by (simp add: Victim_def r_ex_def r_ex'_def Victim_loop.simps Let_def size_dec_def frame_id_of_size_t_def)
  from Victim_sweep [OF a] a b c show ?thesis by blast
qed

text \<open>
  The clock of two slots after \<^verbatim>\<open>ClockReplacer(2)\<close> and \<^verbatim>\<open>Unpin(0)\<close>.
\<close>

lemma Unpin_new_2: "Unpin (ClockReplacer_new 2) 0 = Inr r_cex"
  by (simp add: Unpin_def size_t_of_frame_id_def ClockReplacer_new_def Let_def size_inc_def
      r_cex_def numeral_2_eq_2)

lemma replacer_reachable_r_cex: "replacer_reachable 2 r_cex"
proof -
  have "replacer_reachable 2 (ClockReplacer_new 2)" by (rule rr_new)
  then show ?thesis
    by (rule rr_unpin [OF _ _ _ Unpin_new_2]) simp_all
qed

text \<open>
  Claim C3 as stated fails, in a state that the replacer reaches: after
  \<^verbatim>\<open>ClockReplacer(2)\<close> and \<^verbatim>\<open>Unpin(0)\<close>, the sweep of \<^verbatim>\<open>Victim\<close> clears the ref bit
  of slot 0, skips slot 1, and selects slot 0. The hand is still 0 when \<^verbatim>\<open>Victim\<close> has
  returned true, not 1: \<^verbatim>\<open>return true\<close> comes before the statement that advances the
  hand.
\<close>

theorem Victim_hand_counterexample:
  "Unpin (ClockReplacer_new 2) 0 = Inr r_cex \<and> replacer_reachable 2 r_cex \<and>
   Victim r_cex = Some (Inr (r_cex', True, Some 0)) \<and> hand r_cex' = 0 \<and>
   hand r_cex' \<noteq> (0 + 1) mod length (clock r_cex)"
  using Unpin_new_2 replacer_reachable_r_cex
  by (simp add: Victim_def r_cex_def r_cex'_def Victim_loop.simps Let_def size_dec_def
      frame_id_of_size_t_def)

text \<open>
  Claim C3, amended. A call of \<^verbatim>\<open>Victim\<close> that returns true leaves the hand on the slot
  it selected, which is then absent; the hand is not advanced past it. The hand advances by
  one slot, modulo the size of the clock, on every inspected slot that is not selected:
  when the sweep clears a ref bit and continues, and when it skips an absent slot.
\<close>

theorem Victim_hand_stays:
  assumes "replacer_inv r"
  shows "(\<forall>r' f. Victim r = Some (Inr (r', True, Some f)) \<longrightarrow>
            f = int (hand r') \<and> clock r' ! hand r' = (False, False) \<and>
            (\<exists>k. hand r' = (hand r + k) mod length (clock r) \<and>
                 (\<forall>j<k. \<not> selects ((sweep_step ^^ j) r)))) \<and>
         (\<not> selects r \<longrightarrow>
            Victim_loop r = Victim_loop (sweep_step r) \<and>
            hand (sweep_step r) = (hand r + 1) mod length (clock r))"
proof (intro conjI allI impI)
  fix r' f
  assume v: "Victim r = Some (Inr (r', True, Some f))"
  then have pos: "0 < rsize r"
    by (auto simp: Victim_def split: if_splits)
  from Victim_sweep_aux [OF assms pos] v obtain k where
    k: "f = int (hand r')" "hand r' = (hand r + k) mod length (clock r)"
       "\<forall>j<k. \<not> selects ((sweep_step ^^ j) r)"
       "\<forall>i<length (clock r). clock r' ! i =
        (if i = hand r' then (False, False)
         else if i \<in> passed_over r k \<and> clock r ! i = (True, True) then (True, False)
         else clock r ! i)"
    by auto
  show "f = int (hand r')" by (rule k(1))
  have "0 < length (clock r)"
    using assms by (auto simp: replacer_inv_def)
  then have "hand r' < length (clock r)"
    unfolding k(2) by (rule mod_less_divisor)
  with k(4) show "clock r' ! hand r' = (False, False)" by simp
  from k(2,3) show "\<exists>k. hand r' = (hand r + k) mod length (clock r) \<and>
                 (\<forall>j<k. \<not> selects ((sweep_step ^^ j) r))" by blast
next
  assume "\<not> selects r"
  with assms show "Victim_loop r = Victim_loop (sweep_step r)"
    by (intro Victim_loop_skip) (simp_all add: replacer_inv_def)
next
  show "hand (sweep_step r) = (hand r + 1) mod length (clock r)" by simp
qed

text \<open>
  On the clock of three slots the hand ends on the victim, slot 2, and the first iteration
  moves it from slot 0 to slot 1.
\<close>

theorem Victim_hand_stays_witness:
  "replacer_inv r_ex \<and> Victim r_ex = Some (Inr (r_ex', True, Some 2)) \<and> hand r_ex' = 2 \<and>
   clock r_ex' ! hand r_ex' = (False, False) \<and>
   \<not> selects r_ex \<and> sweep_step r_ex = r_ex\<lparr>hand := 1\<rparr> \<and>
   Victim_loop r_ex = Victim_loop (sweep_step r_ex)"
proof -
  have a: "replacer_inv r_ex" by (simp add: replacer_inv_def r_ex_def)
  have c: "Victim r_ex = Some (Inr (r_ex', True, Some 2))"
    by (simp add: Victim_def r_ex_def r_ex'_def Victim_loop.simps Let_def size_dec_def
        frame_id_of_size_t_def)
  have d: "\<not> selects r_ex" by (simp add: selects_def r_ex_def)
  have e: "sweep_step r_ex = r_ex\<lparr>hand := 1\<rparr>" by (simp add: sweep_step_def r_ex_def)
  from Victim_hand_stays [OF a] a c d e show ?thesis by auto
qed

text \<open>
  Claim C10. For a 32-bit frame id \<open>f\<close>, \<^verbatim>\<open>Pin\<close> and \<^verbatim>\<open>Unpin\<close> index the clock in
  bounds exactly when \<open>0 \<le> f < clock.size()\<close>. The assertion \<^verbatim>\<open>f <= clock.size()\<close> fails
  exactly when \<open>f\<close> is negative or greater than the size, so \<open>f = clock.size()\<close> passes
  the assertion and indexes out of bounds.
\<close>

theorem Pin_Unpin_bounds:
  assumes "length (clock r) < 2 ^ 31" "- (2 ^ 31) \<le> f" "f < 2 ^ 31"
  shows "((\<exists>r'. Pin r f = Inr r') \<longleftrightarrow> 0 \<le> f \<and> f < int (length (clock r))) \<and>
         (Pin r f = Inl AssertionFailed \<longleftrightarrow> f < 0 \<or> int (length (clock r)) < f) \<and>
         (Pin r f = Inl OutOfBounds \<longleftrightarrow> f = int (length (clock r))) \<and>
         ((\<exists>r'. Unpin r f = Inr r') \<longleftrightarrow> 0 \<le> f \<and> f < int (length (clock r))) \<and>
         (Unpin r f = Inl AssertionFailed \<longleftrightarrow> f < 0 \<or> int (length (clock r)) < f) \<and>
         (Unpin r f = Inl OutOfBounds \<longleftrightarrow> f = int (length (clock r)))"
proof (cases "0 \<le> f")
  case True
  with size_t_of_frame_id_32(1) [OF assms] show ?thesis
    by (auto simp: Pin_def Unpin_def Let_def)
next
  case False
  with size_t_of_frame_id_32(2) [OF assms] show ?thesis
    by (auto simp: Pin_def Unpin_def Let_def)
qed

text \<open>
  A replacer of 3 slots: frame id 3 passes the assertion and is out of bounds, 4 and -1
  fail the assertion, 2 is in bounds.
\<close>

theorem Pin_Unpin_bounds_witness:
  "length (clock (ClockReplacer_new 3)) < 2 ^ 31 \<and>
   Pin (ClockReplacer_new 3) 3 = Inl OutOfBounds \<and>
   Unpin (ClockReplacer_new 3) 3 = Inl OutOfBounds \<and>
   Pin (ClockReplacer_new 3) 4 = Inl AssertionFailed \<and>
   Pin (ClockReplacer_new 3) (- 1) = Inl AssertionFailed \<and>
   (\<exists>r'. Pin (ClockReplacer_new 3) 2 = Inr r') \<and>
   (\<exists>r'. Unpin (ClockReplacer_new 3) 2 = Inr r')"
proof -
  have a: "length (clock (ClockReplacer_new 3)) < 2 ^ 31"
    by (simp add: ClockReplacer_new_def)
  show ?thesis
    using a Pin_Unpin_bounds [OF a, of 3] Pin_Unpin_bounds [OF a, of 4]
      Pin_Unpin_bounds [OF a, of "- 1"] Pin_Unpin_bounds [OF a, of 2]
    by (simp add: ClockReplacer_new_def)
qed

section \<open>The hash table block page\<close>

text \<open>
  The masks are the eight single bits of a byte: setting one makes the test of that bit
  true, clearing it makes the test false, and other bits are not involved.
\<close>

lemma mask_cases:
  "j < 8 \<Longrightarrow> N_TH_BIT_MASK ! j \<in> {128, 64, 32, 16, 8, 4, 2, 1}"
  unfolding N_TH_BIT_MASK_def
  by (auto simp: nth_Cons' less_Suc_eq numeral_eq_Suc)

lemma mask_nonzero: "j < 8 \<Longrightarrow> N_TH_BIT_MASK ! j \<noteq> 0"
  using mask_cases [of j] by auto

lemma or_mask_nonzero: "j < 8 \<Longrightarrow> (b OR N_TH_BIT_MASK ! j) AND N_TH_BIT_MASK ! j \<noteq> (0 :: byte)"
proof -
  assume "j < 8"
  then have m: "N_TH_BIT_MASK ! j \<noteq> 0"
    by (rule mask_nonzero)
  have "(b OR N_TH_BIT_MASK ! j) AND N_TH_BIT_MASK ! j = N_TH_BIT_MASK ! j"
    by (simp add: bit_eq_iff bit_and_iff bit_or_iff)
  with m show ?thesis by simp
qed

lemma and_not_mask_zero: "(b AND NOT (N_TH_BIT_MASK ! j)) AND N_TH_BIT_MASK ! j = (0 :: byte)"
  by (simp add: bit_eq_iff bit_and_iff bit_not_iff)

lemma GET_in_range:
  "i div 8 < length arr \<Longrightarrow>
   GET_N_TH_BIT arr i = Inr ((arr ! (i div 8)) AND (N_TH_BIT_MASK ! (i mod 8)) \<noteq> 0)"
  by (simp add: GET_N_TH_BIT_def)

lemma GET_SET:
  "i div 8 < length arr \<Longrightarrow>
   \<exists>arr'. SET_N_TH_BIT arr i = Inr arr' \<and> length arr' = length arr \<and>
          GET_N_TH_BIT arr' i = Inr True"
  by (simp add: SET_N_TH_BIT_def GET_N_TH_BIT_def Let_def or_mask_nonzero mask_nonzero)

lemma GET_UNSET:
  "i div 8 < length arr \<Longrightarrow>
   \<exists>arr'. UNSET_N_TH_BIT arr i = Inr arr' \<and> length arr' = length arr \<and>
          GET_N_TH_BIT arr' i = Inr False"
  by (simp add: UNSET_N_TH_BIT_def GET_N_TH_BIT_def Let_def and_not_mask_zero)

lemma block_page_wf_index:
  assumes "block_page_wf pg" "i < BLOCK_ARRAY_SIZE pg"
  shows "i div 8 < length (occupied pg)" "i div 8 < length (readable pg)" "i < length (array pg)"
proof -
  have "i \<le> BLOCK_ARRAY_SIZE pg - 1" using assms(2) by simp
  then have "i div 8 \<le> (BLOCK_ARRAY_SIZE pg - 1) div 8" by (rule div_le_mono)
  then show "i div 8 < length (occupied pg)" "i div 8 < length (readable pg)"
    using assms(1) by (simp_all add: block_page_wf_def)
  show "i < length (array pg)"
    using assms(2) by (simp add: BLOCK_ARRAY_SIZE_def)
qed

lemma Remove_slot:
  assumes "block_page_wf pg" "i < BLOCK_ARRAY_SIZE pg"
  shows "\<exists>pg''. Remove pg i = Inr pg'' \<and> IsReadable pg'' i = Inr False \<and>
           IsOccupied pg'' i = IsOccupied pg i \<and> block_page_wf pg'' \<and>
           BLOCK_ARRAY_SIZE pg'' = BLOCK_ARRAY_SIZE pg"
proof -
  from GET_UNSET [OF block_page_wf_index(2) [OF assms]] obtain rd where
    rd: "UNSET_N_TH_BIT (readable pg) i = Inr rd" "length rd = length (readable pg)"
        "GET_N_TH_BIT rd i = Inr False"
    by blast
  then show ?thesis
    using assms(1)
    by (simp add: Remove_def IsReadable_def IsOccupied_def block_page_wf_def BLOCK_ARRAY_SIZE_def)
qed

lemma Insert_slot:
  assumes "block_page_wf pg" "i < BLOCK_ARRAY_SIZE pg"
  shows "\<exists>pg' b. Insert pg i k v = Inr (pg', b) \<and>
           (b = False \<longleftrightarrow> IsReadable pg i = Inr True) \<and>
           block_page_wf pg' \<and> BLOCK_ARRAY_SIZE pg' = BLOCK_ARRAY_SIZE pg \<and>
           (b \<longrightarrow> IsReadable pg' i = Inr True \<and> IsOccupied pg' i = Inr True \<and>
                  KeyAt pg' i = Inr k \<and> ValueAt pg' i = Inr v)"
proof -
  note idx = block_page_wf_index [OF assms]
  from GET_SET [OF idx(1)] obtain occ where
    occ: "SET_N_TH_BIT (occupied pg) i = Inr occ" "length occ = length (occupied pg)"
         "GET_N_TH_BIT occ i = Inr True"
    by blast
  from GET_SET [OF idx(2)] obtain rd where
    rd: "SET_N_TH_BIT (readable pg) i = Inr rd" "length rd = length (readable pg)"
        "GET_N_TH_BIT rd i = Inr True"
    by blast
  show ?thesis
  proof (cases "(readable pg ! (i div 8)) AND (N_TH_BIT_MASK ! (i mod 8)) \<noteq> 0")
    case True
    then have "Insert pg i k v = Inr (pg, False)" "IsReadable pg i = Inr True"
      using idx by (simp_all add: Insert_def IsReadable_def GET_in_range)
    with assms(1) show ?thesis
      by (intro exI [of _ pg] exI [of _ False]) simp
  next
    case False
    then have g: "GET_N_TH_BIT (readable pg) i = Inr False"
      using idx by (simp add: GET_in_range)
    then have "Insert pg i k v =
        Inr (pg\<lparr>occupied := occ, readable := rd, array := (array pg)[i := (k, v)]\<rparr>, True)"
      using idx occ rd by (simp add: Insert_def)
    moreover have "IsReadable pg i \<noteq> Inr True"
      using g by (simp add: IsReadable_def)
    ultimately show ?thesis
      using occ rd idx assms(1)
      by (intro exI [of _ "pg\<lparr>occupied := occ, readable := rd, array := (array pg)[i := (k, v)]\<rparr>"]
            exI [of _ True])
         (simp add: IsReadable_def IsOccupied_def KeyAt_def ValueAt_def block_page_wf_def
            BLOCK_ARRAY_SIZE_def)
  qed
qed

text \<open>
  Claim C8. For a slot \<open>i\<close> below \<^verbatim>\<open>BLOCK_ARRAY_SIZE\<close>: \<^verbatim>\<open>Insert(i, k, v)\<close> returns false
  iff the readable bit of \<open>i\<close> is set; when it returns true, the slot is readable and
  occupied and holds \<open>k\<close> and \<open>v\<close>, and a \<^verbatim>\<open>Remove(i)\<close> then leaves a tombstone.
  \<^verbatim>\<open>Remove(i)\<close> clears the readable bit and leaves the occupied bit as it was, and an
  \<^verbatim>\<open>Insert\<close> at \<open>i\<close> right after it succeeds.
\<close>

theorem block_page_Insert_Remove:
  assumes "block_page_wf pg" "i < BLOCK_ARRAY_SIZE pg"
  shows "(\<exists>pg' b. Insert pg i k v = Inr (pg', b) \<and>
            (b = False \<longleftrightarrow> IsReadable pg i = Inr True) \<and>
            (b \<longrightarrow> IsReadable pg' i = Inr True \<and> IsOccupied pg' i = Inr True \<and>
                   KeyAt pg' i = Inr k \<and> ValueAt pg' i = Inr v \<and>
                   (\<exists>pg''. Remove pg' i = Inr pg'' \<and> IsReadable pg'' i = Inr False \<and>
                           IsOccupied pg'' i = Inr True))) \<and>
         (\<exists>pg''. Remove pg i = Inr pg'' \<and> IsReadable pg'' i = Inr False \<and>
            IsOccupied pg'' i = IsOccupied pg i \<and>
            (\<exists>pg3. Insert pg'' i k' v' = Inr (pg3, True)))"
proof (intro conjI)
  from Insert_slot [OF assms, of k v] obtain pg' b where
    ins: "Insert pg i k v = Inr (pg', b)" "b = False \<longleftrightarrow> IsReadable pg i = Inr True"
      "block_page_wf pg'" "BLOCK_ARRAY_SIZE pg' = BLOCK_ARRAY_SIZE pg"
      "b \<longrightarrow> IsReadable pg' i = Inr True \<and> IsOccupied pg' i = Inr True \<and>
                  KeyAt pg' i = Inr k \<and> ValueAt pg' i = Inr v"
    by blast
  from Remove_slot [OF ins(3), of i] ins(4) assms(2) obtain pg'' where
    "Remove pg' i = Inr pg''" "IsReadable pg'' i = Inr False" "IsOccupied pg'' i = IsOccupied pg' i"
    by auto
  with ins show "\<exists>pg' b. Insert pg i k v = Inr (pg', b) \<and>
            (b = False \<longleftrightarrow> IsReadable pg i = Inr True) \<and>
            (b \<longrightarrow> IsReadable pg' i = Inr True \<and> IsOccupied pg' i = Inr True \<and>
                   KeyAt pg' i = Inr k \<and> ValueAt pg' i = Inr v \<and>
                   (\<exists>pg''. Remove pg' i = Inr pg'' \<and> IsReadable pg'' i = Inr False \<and>
                           IsOccupied pg'' i = Inr True))"
    by auto
next
  from Remove_slot [OF assms] obtain pg'' where
    rm: "Remove pg i = Inr pg''" "IsReadable pg'' i = Inr False"
      "IsOccupied pg'' i = IsOccupied pg i" "block_page_wf pg''"
      "BLOCK_ARRAY_SIZE pg'' = BLOCK_ARRAY_SIZE pg"
    by blast
  from Insert_slot [OF rm(4), of i k' v'] rm(5) assms(2) obtain pg3 b where
    "Insert pg'' i k' v' = Inr (pg3, b)" "b = False \<longleftrightarrow> IsReadable pg'' i = Inr True"
    by auto
  with rm show "\<exists>pg''. Remove pg i = Inr pg'' \<and> IsReadable pg'' i = Inr False \<and>
            IsOccupied pg'' i = IsOccupied pg i \<and>
            (\<exists>pg3. Insert pg'' i k' v' = Inr (pg3, True))"
    by auto
qed

text \<open>
  A block page of ten slots, all empty: the insert at slot 3 sets bit 3 of the first byte
  of both bit maps (mask \<open>0x10\<close>).
\<close>

theorem block_page_Insert_Remove_witness:
  "block_page_wf pg0 \<and> (3::nat) < BLOCK_ARRAY_SIZE pg0 \<and>
   Insert pg0 3 7 9 = Inr (pg0\<lparr>occupied := [16, 0], readable := [16, 0], array := (replicate 10 (0, 0))[3 := (7, 9)]\<rparr>, True) \<and>
   (\<exists>pg' b. Insert pg0 3 7 9 = Inr (pg', b) \<and>
            (b = False \<longleftrightarrow> IsReadable pg0 3 = Inr True) \<and>
            (b \<longrightarrow> IsReadable pg' 3 = Inr True \<and> IsOccupied pg' 3 = Inr True \<and>
                   KeyAt pg' 3 = Inr 7 \<and> ValueAt pg' 3 = Inr 9 \<and>
                   (\<exists>pg''. Remove pg' 3 = Inr pg'' \<and> IsReadable pg'' 3 = Inr False \<and>
                           IsOccupied pg'' 3 = Inr True))) \<and>
         (\<exists>pg''. Remove pg0 3 = Inr pg'' \<and> IsReadable pg'' 3 = Inr False \<and>
            IsOccupied pg'' 3 = IsOccupied pg0 3 \<and>
            (\<exists>pg3. Insert pg'' 3 1 2 = Inr (pg3, True)))"
proof -
  have a: "block_page_wf pg0" "(3::nat) < BLOCK_ARRAY_SIZE pg0"
    by (simp_all add: block_page_wf_def BLOCK_ARRAY_SIZE_def pg0_def)
  have b: "Insert pg0 3 7 9 = Inr (pg0\<lparr>occupied := [16, 0], readable := [16, 0], array := (replicate 10 (0, 0))[3 := (7, 9)]\<rparr>, True)"
    by (simp add: Insert_def GET_N_TH_BIT_def SET_N_TH_BIT_def N_TH_BIT_MASK_def pg0_def)
  show ?thesis
    using a b block_page_Insert_Remove [OF a, of 7 9 1 2] by blast
qed

section \<open>The buffer pool manager: unpin and flush\<close>

text \<open>
  Reading and writing one frame of the pool.
\<close>

lemma valid_frame_set_frame [simp]: "valid_frame (set_frame s i p) j = valid_frame s j"
  by (simp add: valid_frame_def set_frame_def)

lemma valid_frame_fields [simp]:
  "valid_frame (s\<lparr>replacer := r\<rparr>) j = valid_frame s j"
  "valid_frame (s\<lparr>page_table := pt\<rparr>) j = valid_frame s j"
  "valid_frame (s\<lparr>free_list := fl\<rparr>) j = valid_frame s j"
  "valid_frame (s\<lparr>disk_manager := d\<rparr>) j = valid_frame s j"
  by (simp_all add: valid_frame_def)

lemma frame_fields [simp]:
  "frame (s\<lparr>replacer := r\<rparr>) j = frame s j"
  "frame (s\<lparr>page_table := pt\<rparr>) j = frame s j"
  "frame (s\<lparr>free_list := fl\<rparr>) j = frame s j"
  "frame (s\<lparr>disk_manager := d\<rparr>) j = frame s j"
  by (simp_all add: frame_def)

lemma valid_frame_nat: "valid_frame s i \<Longrightarrow> nat i < length (pages s)"
  by (simp add: valid_frame_def nat_less_iff)

lemma frame_set_frame_same [simp]: "valid_frame s i \<Longrightarrow> frame (set_frame s i p) i = p"
  by (simp add: valid_frame_nat set_frame_def frame_def)

lemma frame_set_frame_other:
  "valid_frame s i \<Longrightarrow> valid_frame s j \<Longrightarrow> j \<noteq> i \<Longrightarrow> frame (set_frame s i p) j = frame s j"
  by (auto simp: valid_frame_def set_frame_def frame_def nth_list_update)

lemma set_frame_fields [simp]:
  "replacer (set_frame s i p) = replacer s"
  "page_table (set_frame s i p) = page_table s"
  "free_list (set_frame s i p) = free_list s"
  "disk_manager (set_frame s i p) = disk_manager s"
  "pages (set_frame s i p) = (pages s)[nat i := p]"
  by (simp_all add: set_frame_def)

lemma bpm_inv_resident:
  assumes "bpm_inv s" "page_table s p = Some f"
  shows "valid_frame s f" "page_id (frame s f) = p" "0 \<le> f" "f < int (length (clock (replacer s)))"
    "replacer_inv (replacer s)"
  using assms by (auto simp: bpm_inv_def valid_frame_def)

text \<open>
  Claim C6. For a page resident in frame \<open>f\<close> of a well-formed pool: with a pin count of 0
  or less, \<^verbatim>\<open>UnpinPage\<close> returns false and changes nothing. Otherwise it returns true,
  the pin count is one less, the dirty flag is the old flag or \<open>d\<close>, the replacer is the
  result of \<^verbatim>\<open>Unpin(f)\<close> when the count was 1 and is unchanged when it was more, and
  nothing else changes.
\<close>

theorem UnpinPage_resident:
  assumes "bpm_inv s" "page_table s p = Some f"
  shows "(pin_count (frame s f) \<le> 0 \<longrightarrow> UnpinPage s p d = Inr (s, False)) \<and>
         (0 < pin_count (frame s f) \<longrightarrow>
            (\<exists>s'. UnpinPage s p d = Inr (s', True) \<and>
               pages s' = (pages s)[nat f := (frame s f)\<lparr>pin_count := pin_count (frame s f) - 1,
                                                          is_dirty := is_dirty (frame s f) \<or> d\<rparr>] \<and>
               (if pin_count (frame s f) = 1 then Unpin (replacer s) f = Inr (replacer s')
                else replacer s' = replacer s) \<and>
               page_table s' = page_table s \<and> free_list s' = free_list s \<and>
               disk_manager s' = disk_manager s))"
proof (intro conjI impI)
  note res = bpm_inv_resident [OF assms]
  show "UnpinPage s p d = Inr (s, False)" if "pin_count (frame s f) \<le> 0"
    using that assms(2) res(1) by (simp add: UnpinPage_def)
  show "\<exists>s'. UnpinPage s p d = Inr (s', True) \<and>
               pages s' = (pages s)[nat f := (frame s f)\<lparr>pin_count := pin_count (frame s f) - 1,
                                                          is_dirty := is_dirty (frame s f) \<or> d\<rparr>] \<and>
               (if pin_count (frame s f) = 1 then Unpin (replacer s) f = Inr (replacer s')
                else replacer s' = replacer s) \<and>
               page_table s' = page_table s \<and> free_list s' = free_list s \<and>
               disk_manager s' = disk_manager s" if pos: "0 < pin_count (frame s f)"
  proof (cases "pin_count (frame s f) = 1")
    case True
    from Unpin_inv [OF res(5,3,4)] obtain r' where r': "Unpin (replacer s) f = Inr r'"
      by blast
    with True assms(2) res(1) show ?thesis
      by (simp add: UnpinPage_def Let_def)
  next
    case False
    with pos assms(2) res(1) show ?thesis
      by (simp add: UnpinPage_def Let_def)
  qed
qed

text \<open>
  Claim C7. In a well-formed pool \<^verbatim>\<open>FlushPage\<close> returns false iff the page is not in the
  page table, and then changes nothing. For a resident page it returns true; the pin count,
  the page id and the bytes of the frame, the replacer, the page table and the free list
  are as before. When the frame was dirty and its page id valid, the bytes are written to
  disk under that id and the dirty flag is cleared; otherwise the state is unchanged.
\<close>

theorem FlushPage_effect:
  assumes "bpm_inv s"
  shows "((\<exists>s'. FlushPage s p = Inr (s', False)) \<longleftrightarrow> page_table s p = None) \<and>
         (page_table s p = None \<longrightarrow> FlushPage s p = Inr (s, False)) \<and>
         (\<forall>f. page_table s p = Some f \<longrightarrow>
            (\<exists>s'. FlushPage s p = Inr (s', True) \<and>
               pin_count (frame s' f) = pin_count (frame s f) \<and>
               page_id (frame s' f) = page_id (frame s f) \<and>
               data (frame s' f) = data (frame s f) \<and>
               replacer s' = replacer s \<and> page_table s' = page_table s \<and>
               free_list s' = free_list s \<and>
               (if page_id (frame s f) \<noteq> INVALID_PAGE_ID \<and> is_dirty (frame s f)
                then disk_manager s' =
                       WritePage (disk_manager s) (page_id (frame s f)) (data (frame s f)) \<and>
                     pages s' = (pages s)[nat f := (frame s f)\<lparr>is_dirty := False\<rparr>]
                else s' = s)))"
proof -
  have none: "FlushPage s p = Inr (s, False)" if "page_table s p = None"
    using that by (simp add: FlushPage_def)
  have some: "\<exists>s'. FlushPage s p = Inr (s', True) \<and>
               pin_count (frame s' f) = pin_count (frame s f) \<and>
               page_id (frame s' f) = page_id (frame s f) \<and>
               data (frame s' f) = data (frame s f) \<and>
               replacer s' = replacer s \<and> page_table s' = page_table s \<and>
               free_list s' = free_list s \<and>
               (if page_id (frame s f) \<noteq> INVALID_PAGE_ID \<and> is_dirty (frame s f)
                then disk_manager s' =
                       WritePage (disk_manager s) (page_id (frame s f)) (data (frame s f)) \<and>
                     pages s' = (pages s)[nat f := (frame s f)\<lparr>is_dirty := False\<rparr>]
                else s' = s)" if "page_table s p = Some f" for f
    using that bpm_inv_resident(1) [OF assms that]
    by (simp add: FlushPage_def Let_def)
  have "(\<exists>s'. FlushPage s p = Inr (s', False)) \<longleftrightarrow> page_table s p = None"
  proof (cases "page_table s p")
    case None
    with none show ?thesis by simp
  next
    case (Some f)
    with some [OF Some] show ?thesis by auto
  qed
  with none some show ?thesis by blast
qed

lemma bpm_inv_s_ex: "bpm_inv s_ex"
proof -
  have "replacer_inv (replacer s_ex)"
    by (simp add: replacer_inv_def s_ex_def)
  then show ?thesis
    by (auto simp: bpm_inv_def s_ex_def valid_frame_def frame_def less_Suc_eq numeral_2_eq_2
        split: if_splits)
qed

lemma bpm_inv_s_free: "bpm_inv s_free"
proof -
  have "replacer_inv (replacer s_free)"
    by (simp add: replacer_inv_def s_free_def ClockReplacer_new_def)
  then show ?thesis
    by (auto simp: bpm_inv_def s_free_def valid_frame_def frame_def less_Suc_eq numeral_2_eq_2
        ClockReplacer_new_def Page_new_def ran_def split: if_splits)
qed

text \<open>
  In the example pool page 1 has one pin: unpinning it makes frame 1 a candidate. Page 0 has
  no pin: unpinning it returns false.
\<close>

theorem UnpinPage_resident_witness:
  "bpm_inv s_ex \<and> page_table s_ex 1 = Some 1 \<and> pin_count (frame s_ex 1) = 1 \<and>
   (\<exists>s'. UnpinPage s_ex 1 False = Inr (s', True) \<and>
      pages s' = (pages s_ex)[1 := \<lparr>data = zero_data, page_id = 1, pin_count = 0, is_dirty = True\<rparr>] \<and>
      Unpin (replacer s_ex) 1 = Inr (replacer s') \<and>
      clock (replacer s') = [(True, True), (True, True)]) \<and>
   page_table s_ex 0 = Some 0 \<and> pin_count (frame s_ex 0) = 0 \<and>
   UnpinPage s_ex 0 True = Inr (s_ex, False)"
proof -
  have a: "page_table s_ex 1 = Some 1" "page_table s_ex 0 = Some 0"
    by (simp_all add: s_ex_def)
  have b: "pin_count (frame s_ex 1) = 1" "pin_count (frame s_ex 0) = 0"
     "(frame s_ex 1) = \<lparr>data = zero_data, page_id = 1, pin_count = 1, is_dirty = True\<rparr>"
    by (simp_all add: s_ex_def frame_def)
  have c: "Unpin (replacer s_ex) 1 = Inr r \<Longrightarrow> clock r = [(True, True), (True, True)]" for r
    by (auto simp: Unpin_def s_ex_def size_t_of_frame_id_def Let_def)
  from UnpinPage_resident [OF bpm_inv_s_ex a(1), of False]
    UnpinPage_resident [OF bpm_inv_s_ex a(2), of True] a b c bpm_inv_s_ex
  show ?thesis by auto
qed

text \<open>
  Page 0 of the example pool is dirty and is written; page 5 is not resident.
\<close>

theorem FlushPage_effect_witness:
  "bpm_inv s_ex \<and> page_table s_ex 0 = Some 0 \<and> page_table s_ex 5 = None \<and>
   FlushPage s_ex 5 = Inr (s_ex, False) \<and>
   (\<exists>s'. FlushPage s_ex 0 = Inr (s', True) \<and>
      pages s' = (pages s_ex)[0 := \<lparr>data = bytes_ex, page_id = 0, pin_count = 0, is_dirty = False\<rparr>] \<and>
      disk_manager s' = WritePage d_ex 0 bytes_ex \<and> replacer s' = replacer s_ex)"
proof -
  have a: "page_table s_ex 0 = Some 0" "page_table s_ex 5 = None"
    by (simp_all add: s_ex_def)
  have b: "frame s_ex 0 = \<lparr>data = bytes_ex, page_id = 0, pin_count = 0, is_dirty = True\<rparr>"
    "disk_manager s_ex = d_ex"
    by (simp_all add: s_ex_def frame_def)
  from FlushPage_effect [OF bpm_inv_s_ex, of 0] FlushPage_effect [OF bpm_inv_s_ex, of 5]
    a b bpm_inv_s_ex
  show ?thesis by (auto simp: INVALID_PAGE_ID_def)
qed

section \<open>The buffer pool manager: replacement\<close>

text \<open>
  The two branches of \<^verbatim>\<open>ReplaceAndUpdate\<close>, up to the update of the metadata. In the
  second branch the victim is already absent from the replacer, so the \<^verbatim>\<open>Pin\<close> of line
  60 changes nothing.
\<close>

lemma Pin_absent:
  assumes "0 \<le> f" "f < int (length (clock r))" "length (clock r) < 2 ^ 31"
    "clock r ! nat f = (False, False)"
  shows "Pin r f = Inr r"
proof -
  have "size_t_of_frame_id f = nat f"
    using assms(1-3) by (simp add: size_t_of_frame_id_def)
  moreover have "nat f < length (clock r)" using assms(1,2) by simp
  moreover have "(clock r)[nat f := (False, False)] = clock r"
    by (metis assms(4) list_update_id)
  ultimately show ?thesis
    using assms(4) by (simp add: Pin_def Let_def)
qed

lemma ReplaceAndUpdate_io_free:
  assumes "free_list s = f # rest"
  shows "ReplaceAndUpdate_io s new_id True =
           Some (Inr (s\<lparr>free_list := rest, page_table := emplace (page_table s) new_id f\<rparr>, f))"
    and "valid_frame s f \<Longrightarrow> ReplaceAndUpdate_io s new_id False =
           Some (Inr (set_frame (s\<lparr>free_list := rest,
                                   page_table := emplace (page_table s) new_id f,
                                   disk_manager := fst (ReadPage (disk_manager s) new_id)\<rparr>) f
                        ((frame s f)\<lparr>data := store (disk_manager s) new_id\<rparr>), f))"
  using assms by (simp_all add: ReplaceAndUpdate_io_def ReadPage_def Let_def)

lemma ReplaceAndUpdate_io_victim:
  assumes inv: "bpm_inv s" and fl: "free_list s = []" and pos: "0 < rsize (replacer s)"
  shows "\<exists>r1 f. Victim (replacer s) = Some (Inr (r1, True, Some f)) \<and> valid_frame s f \<and>
           fst (clock (replacer s) ! nat f) \<and> replacer_inv r1 \<and>
           length (clock r1) = length (clock (replacer s)) \<and>
           clock r1 ! nat f = (False, False) \<and>
           (\<forall>i<length (clock (replacer s)).
               fst (clock r1 ! i) = (i \<noteq> nat f \<and> fst (clock (replacer s) ! i))) \<and>
           (\<forall>new_id.
              ReplaceAndUpdate_io s new_id True =
                Some (Inr (set_frame
                  (s\<lparr>page_table := emplace ((page_table s)(page_id (frame s f) := None)) new_id f,
                      replacer := r1, disk_manager := victim_disk s f\<rparr>) f
                  (ResetMemory (frame s f)), f)) \<and>
              ReplaceAndUpdate_io s new_id False =
                Some (Inr (set_frame
                  (s\<lparr>page_table := emplace ((page_table s)(page_id (frame s f) := None)) new_id f,
                      replacer := r1,
                      disk_manager := fst (ReadPage (victim_disk s f) new_id)\<rparr>) f
                  ((frame s f)\<lparr>data := store (victim_disk s f) new_id\<rparr>), f)))"
proof -
  have rinv: "replacer_inv (replacer s)" and len: "length (clock (replacer s)) = length (pages s)"
    using inv by (simp_all add: bpm_inv_def)
  from Victim_inv [OF rinv pos] obtain r1 i where
    v: "Victim (replacer s) = Some (Inr (r1, True, Some (int i)))"
    and i: "i < length (clock (replacer s))" and pres: "fst (clock (replacer s) ! i)"
    and r1: "replacer_inv r1" "length (clock r1) = length (clock (replacer s))"
      "clock r1 ! i = (False, False)"
      "\<forall>j<length (clock (replacer s)). fst (clock r1 ! j) = (j \<noteq> i \<and> fst (clock (replacer s) ! j))"
    by blast
  have vf: "valid_frame s (int i)"
    using i len by (simp add: valid_frame_def)
  have pin: "Pin r1 (int i) = Inr r1"
    using i r1 by (intro Pin_absent) (simp_all add: replacer_inv_def)
  have io: "ReplaceAndUpdate_io s new_id True =
                Some (Inr (set_frame
                  (s\<lparr>page_table := emplace ((page_table s)(page_id (frame s (int i)) := None)) new_id (int i),
                      replacer := r1, disk_manager := victim_disk s (int i)\<rparr>) (int i)
                  (ResetMemory (frame s (int i))), int i)) \<and>
              ReplaceAndUpdate_io s new_id False =
                Some (Inr (set_frame
                  (s\<lparr>page_table := emplace ((page_table s)(page_id (frame s (int i)) := None)) new_id (int i),
                      replacer := r1,
                      disk_manager := fst (ReadPage (victim_disk s (int i)) new_id)\<rparr>) (int i)
                  ((frame s (int i))\<lparr>data := store (victim_disk s (int i)) new_id\<rparr>), int i))" for new_id
    using fl pos v vf pin
    by (simp add: ReplaceAndUpdate_io_def Size_def Let_def victim_disk_def ReadPage_def)
  show ?thesis
    using v vf pres r1 io by (intro exI [of _ r1] exI [of _ "int i"]) simp
qed

text \<open>
  The pool invariant after the replacement, in both branches.
\<close>

lemma bpm_inv_disk [simp]: "bpm_inv (s\<lparr>disk_manager := d\<rparr>) = bpm_inv s"
  by (simp add: bpm_inv_def valid_frame_def frame_def)

lemma set_frame_twice [simp]: "set_frame (set_frame s i p) i q = set_frame s i q"
  by (simp add: set_frame_def)

lemma set_frame_field_commute [simp]:
  "set_frame (s\<lparr>disk_manager := d\<rparr>) i p = (set_frame s i p)\<lparr>disk_manager := d\<rparr>"
  "set_frame (s\<lparr>replacer := r\<rparr>) i p = (set_frame s i p)\<lparr>replacer := r\<rparr>"
  "set_frame (s\<lparr>page_table := pt\<rparr>) i p = (set_frame s i p)\<lparr>page_table := pt\<rparr>"
  "set_frame (s\<lparr>free_list := fl\<rparr>) i p = (set_frame s i p)\<lparr>free_list := fl\<rparr>"
  by (simp_all add: set_frame_def)

lemma emplace_cases:
  "emplace m k v k' = Some w \<Longrightarrow> m k' = Some w \<or> (k' = k \<and> w = v \<and> m k = None)"
  by (auto simp: emplace_def split: option.splits if_splits)

lemma emplace_keeps: "m k' = Some w \<Longrightarrow> emplace m k v k' = Some w"
  by (auto simp: emplace_def split: option.splits)

lemma ran_emplace: "ran (emplace m k v) \<subseteq> insert v (ran m)"
  by (auto simp: ran_def dest!: emplace_cases)

text \<open>Installing a page in the head of the free list.\<close>

lemma bpm_inv_install_free:
  assumes inv: "bpm_inv s" and fl: "free_list s = f # rest" and pid: "page_id P = new_id"
  shows "bpm_inv ((set_frame s f P)\<lparr>free_list := rest,
                    page_table := emplace (page_table s) new_id f\<rparr>)"
proof -
  let ?s' = "(set_frame s f P)\<lparr>free_list := rest, page_table := emplace (page_table s) new_id f\<rparr>"
  have rinv: "replacer_inv (replacer s)" and len: "length (clock (replacer s)) = length (pages s)"
    and dist: "distinct (free_list s)"
    and free: "\<And>g. g \<in> set (free_list s) \<Longrightarrow> valid_frame s g \<and> data (frame s g) = zero_data \<and>
         pin_count (frame s g) \<le> 0 \<and>
         \<not> fst (clock (replacer s) ! nat g) \<and> g \<notin> ran (page_table s)"
    and tab: "\<And>p g. page_table s p = Some g \<Longrightarrow> valid_frame s g \<and> page_id (frame s g) = p"
    and cand: "\<And>i. i < length (pages s) \<Longrightarrow> fst (clock (replacer s) ! i) \<Longrightarrow>
         page_table s (page_id (pages s ! i)) = Some (int i)"
    using inv by (auto simp: bpm_inv_def)
  have vf: "valid_frame s f" and nf: "\<not> fst (clock (replacer s) ! nat f)"
    and nr: "f \<notin> ran (page_table s)"
    using free [of f] fl by simp_all
  have frest: "f \<notin> set rest" "distinct rest" using dist fl by simp_all
  have 1: "replacer_inv (replacer ?s')" "length (clock (replacer ?s')) = length (pages ?s')"
    "distinct (free_list ?s')"
    using rinv len frest by simp_all
  have 2: "valid_frame ?s' g \<and> data (frame ?s' g) = zero_data \<and>
         pin_count (frame ?s' g) \<le> 0 \<and>
         \<not> fst (clock (replacer ?s') ! nat g) \<and> g \<notin> ran (page_table ?s')"
    if "g \<in> set (free_list ?s')" for g
  proof -
    from that have g: "g \<in> set (free_list s)" "g \<noteq> f" using fl frest by auto
    from free [OF g(1)] have "g \<notin> insert f (ran (page_table s))" using g(2) by simp
    then have "g \<notin> ran (emplace (page_table s) new_id f)"
      using ran_emplace [of "page_table s" new_id f] by blast
    then show ?thesis
      using free [OF g(1)] g(2) vf by (simp add: frame_set_frame_other)
  qed
  have 3: "valid_frame ?s' g \<and> page_id (frame ?s' g) = p" if "page_table ?s' p = Some g" for p g
  proof -
    from that have "emplace (page_table s) new_id f p = Some g" by simp
    from emplace_cases [OF this] show ?thesis
    proof
      assume a: "page_table s p = Some g"
      then have "g \<noteq> f" using nr by (auto simp: ran_def)
      with tab [OF a] vf show ?thesis by (simp add: frame_set_frame_other)
    next
      assume "p = new_id \<and> g = f \<and> page_table s new_id = None"
      with vf pid show ?thesis by simp
    qed
  qed
  have 4: "page_table ?s' (page_id (pages ?s' ! i)) = Some (int i)"
    if "i < length (pages ?s')" "fst (clock (replacer ?s') ! i)" for i
  proof -
    from that have i: "i < length (pages s)" "fst (clock (replacer s) ! i)" by simp_all
    with nf have "i \<noteq> nat f" by auto
    then have "pages ?s' ! i = pages s ! i" by simp
    with cand [OF i] show ?thesis by (simp add: emplace_keeps)
  qed
  show ?thesis
    unfolding bpm_inv_def using 1 2 3 4 by blast
qed

text \<open>Installing a page in the frame that the replacer has given up.\<close>

lemma bpm_inv_install_victim:
  assumes inv: "bpm_inv s" and fl: "free_list s = []" and vf: "valid_frame s f"
    and pres: "fst (clock (replacer s) ! nat f)"
    and r1: "replacer_inv r1" "length (clock r1) = length (clock (replacer s))"
      "\<forall>i<length (clock (replacer s)). fst (clock r1 ! i) = (i \<noteq> nat f \<and> fst (clock (replacer s) ! i))"
    and pid: "page_id P = new_id"
  shows "bpm_inv ((set_frame s f P)\<lparr>replacer := r1,
           page_table := emplace ((page_table s)(page_id (frame s f) := None)) new_id f\<rparr>)"
proof -
  let ?pt = "(page_table s)(page_id (frame s f) := None)"
  let ?s' = "(set_frame s f P)\<lparr>replacer := r1, page_table := emplace ?pt new_id f\<rparr>"
  have len: "length (clock (replacer s)) = length (pages s)"
    and tab: "\<And>p g. page_table s p = Some g \<Longrightarrow> valid_frame s g \<and> page_id (frame s g) = p"
    and cand: "\<And>i. i < length (pages s) \<Longrightarrow> fst (clock (replacer s) ! i) \<Longrightarrow>
         page_table s (page_id (pages s ! i)) = Some (int i)"
    using inv by (auto simp: bpm_inv_def)
  have nf: "nat f < length (pages s)" using vf by (rule valid_frame_nat)
  have f0: "0 \<le> f" using vf by (simp add: valid_frame_def)
  have own: "page_table s (page_id (frame s f)) = Some f"
    using cand [OF nf pres] f0 by (simp add: frame_def)
  have 1: "replacer_inv (replacer ?s')" "length (clock (replacer ?s')) = length (pages ?s')"
    "distinct (free_list ?s')" "free_list ?s' = []"
    using r1 len fl by simp_all
  have 3: "valid_frame ?s' g \<and> page_id (frame ?s' g) = p" if "page_table ?s' p = Some g" for p g
  proof -
    from that have "emplace ?pt new_id f p = Some g" by simp
    from emplace_cases [OF this] show ?thesis
    proof
      assume "?pt p = Some g"
      then have a: "page_table s p = Some g" "p \<noteq> page_id (frame s f)"
        by (auto split: if_splits)
      have "g \<noteq> f" using tab [OF a(1)] a(2) by auto
      with tab [OF a(1)] vf show ?thesis by (simp add: frame_set_frame_other)
    next
      assume "p = new_id \<and> g = f \<and> ?pt new_id = None"
      with vf pid show ?thesis by simp
    qed
  qed
  have 4: "page_table ?s' (page_id (pages ?s' ! i)) = Some (int i)"
    if "i < length (pages ?s')" "fst (clock (replacer ?s') ! i)" for i
  proof -
    from that r1(3) len have i: "i < length (pages s)" "fst (clock (replacer s) ! i)" "i \<noteq> nat f"
      by simp_all
    have same: "pages ?s' ! i = pages s ! i" using i(3) by simp
    have "page_id (pages s ! i) \<noteq> page_id (frame s f)"
    proof
      assume "page_id (pages s ! i) = page_id (frame s f)"
      with cand [OF i(1,2)] own have "int i = f" by simp
      with i(3) show False by simp
    qed
    with cand [OF i(1,2)] have "?pt (page_id (pages s ! i)) = Some (int i)" by simp
    then show ?thesis using same by (simp add: emplace_keeps)
  qed
  show ?thesis
    unfolding bpm_inv_def using 1 3 4 by simp
qed

lemma ReplaceAndUpdate_total:
  assumes inv: "bpm_inv s" and avail: "free_list s \<noteq> [] \<or> 0 < rsize (replacer s)"
  shows "\<exists>s' f. ReplaceAndUpdate s new_id np = Some (Inr (s', f)) \<and> valid_frame s f \<and>
           bpm_inv s' \<and> length (pages s') = length (pages s) \<and>
           page_id (frame s' f) = new_id \<and> pin_count (frame s' f) = 1 \<and>
           is_dirty (frame s' f) = np \<and> (np \<longrightarrow> data (frame s' f) = zero_data) \<and>
           (free_list s \<noteq> [] \<longrightarrow> f = hd (free_list s) \<and> free_list s' = tl (free_list s) \<and>
              (np \<longrightarrow> disk_manager s' = disk_manager s)) \<and>
           (free_list s = [] \<longrightarrow> (\<exists>r1. Victim (replacer s) = Some (Inr (r1, True, Some f))) \<and>
              (np \<longrightarrow> disk_manager s' = victim_disk s f))"
proof (cases "free_list s")
  case (Cons f rest)
  have fr: "valid_frame s f" "data (frame s f) = zero_data"
    using inv Cons by (simp_all add: bpm_inv_def)
  show ?thesis
  proof (cases np)
    case True
    let ?P = "(frame s f)\<lparr>page_id := new_id, pin_count := 1, is_dirty := True\<rparr>"
    let ?s' = "(set_frame s f ?P)\<lparr>free_list := rest, page_table := emplace (page_table s) new_id f\<rparr>"
    have "ReplaceAndUpdate s new_id np = Some (Inr (?s', f))"
      using True fr(1) ReplaceAndUpdate_io_free(1) [OF Cons, of new_id]
      by (simp add: ReplaceAndUpdate_def ReplaceAndUpdate_meta_def)
    moreover have "bpm_inv ?s'"
      using inv Cons by (rule bpm_inv_install_free) simp
    ultimately show ?thesis
      using fr Cons True by (intro exI [of _ ?s'] exI [of _ f]) simp
  next
    case False
    let ?P = "(frame s f)\<lparr>data := store (disk_manager s) new_id, page_id := new_id,
                pin_count := 1, is_dirty := False\<rparr>"
    let ?s' = "(set_frame s f ?P)\<lparr>free_list := rest, page_table := emplace (page_table s) new_id f,
                disk_manager := fst (ReadPage (disk_manager s) new_id)\<rparr>"
    have "ReplaceAndUpdate s new_id np = Some (Inr (?s', f))"
      using False fr(1) ReplaceAndUpdate_io_free(2) [OF Cons fr(1), of new_id]
      by (simp add: ReplaceAndUpdate_def ReplaceAndUpdate_meta_def)
    moreover have "bpm_inv ?s'"
      using bpm_inv_install_free [OF inv Cons, of ?P new_id] by simp
    ultimately show ?thesis
      using fr Cons False by (intro exI [of _ ?s'] exI [of _ f]) simp
  qed
next
  case Nil
  with avail have pos: "0 < rsize (replacer s)" by simp
  from ReplaceAndUpdate_io_victim [OF inv Nil pos] obtain r1 f where
    v: "Victim (replacer s) = Some (Inr (r1, True, Some f))" and vf: "valid_frame s f"
    and pres: "fst (clock (replacer s) ! nat f)"
    and r1: "replacer_inv r1" "length (clock r1) = length (clock (replacer s))"
      "\<forall>i<length (clock (replacer s)). fst (clock r1 ! i) = (i \<noteq> nat f \<and> fst (clock (replacer s) ! i))"
    and io: "\<And>new_id. ReplaceAndUpdate_io s new_id True =
                Some (Inr (set_frame
                  (s\<lparr>page_table := emplace ((page_table s)(page_id (frame s f) := None)) new_id f,
                      replacer := r1, disk_manager := victim_disk s f\<rparr>) f
                  (ResetMemory (frame s f)), f))"
       "\<And>new_id. ReplaceAndUpdate_io s new_id False =
                Some (Inr (set_frame
                  (s\<lparr>page_table := emplace ((page_table s)(page_id (frame s f) := None)) new_id f,
                      replacer := r1,
                      disk_manager := fst (ReadPage (victim_disk s f) new_id)\<rparr>) f
                  ((frame s f)\<lparr>data := store (victim_disk s f) new_id\<rparr>), f))"
    by blast
  show ?thesis
  proof (cases np)
    case True
    let ?P = "(ResetMemory (frame s f))\<lparr>page_id := new_id, pin_count := 1, is_dirty := True\<rparr>"
    let ?s' = "(set_frame s f ?P)\<lparr>replacer := r1,
           page_table := emplace ((page_table s)(page_id (frame s f) := None)) new_id f,
           disk_manager := victim_disk s f\<rparr>"
    have "ReplaceAndUpdate s new_id np = Some (Inr (?s', f))"
      using True vf io(1) [of new_id]
      by (simp add: ReplaceAndUpdate_def ReplaceAndUpdate_meta_def)
    moreover have "bpm_inv ?s'"
      using bpm_inv_install_victim [OF inv Nil vf pres r1, of ?P new_id] by simp
    ultimately show ?thesis
      using vf Nil True v
      by (intro exI [of _ ?s'] exI [of _ f]) (simp add: ResetMemory_def)
  next
    case False
    let ?P = "(frame s f)\<lparr>data := store (victim_disk s f) new_id, page_id := new_id,
                pin_count := 1, is_dirty := False\<rparr>"
    let ?s' = "(set_frame s f ?P)\<lparr>replacer := r1,
           page_table := emplace ((page_table s)(page_id (frame s f) := None)) new_id f,
           disk_manager := fst (ReadPage (victim_disk s f) new_id)\<rparr>"
    have "ReplaceAndUpdate s new_id np = Some (Inr (?s', f))"
      using False vf io(2) [of new_id]
      by (simp add: ReplaceAndUpdate_def ReplaceAndUpdate_meta_def)
    moreover have "bpm_inv ?s'"
      using bpm_inv_install_victim [OF inv Nil vf pres r1, of ?P new_id] by simp
    ultimately show ?thesis
      using vf Nil False v
      by (intro exI [of _ ?s'] exI [of _ f]) simp
  qed
qed

section \<open>The buffer pool manager: new pages\<close>

lemma NewPage_total:
  assumes inv: "bpm_inv s" and avail: "free_list s \<noteq> [] \<or> 0 < rsize (replacer s)"
  shows "\<exists>s' f. NewPage s = Some (Inr (s', snd (AllocatePage (disk_manager s)), Some f)) \<and>
           valid_frame s' f \<and> bpm_inv s' \<and>
           data (frame s' f) = zero_data \<and> is_dirty (frame s' f) \<and>
           pin_count (frame s' f) = 1 \<and>
           page_id (frame s' f) = snd (AllocatePage (disk_manager s)) \<and>
           (free_list s \<noteq> [] \<longrightarrow> f = hd (free_list s) \<and>
              disk_manager s' = fst (AllocatePage (disk_manager s))) \<and>
           (free_list s = [] \<longrightarrow> (\<exists>r1. Victim (replacer s) = Some (Inr (r1, True, Some f))))"
proof -
  let ?d = "fst (AllocatePage (disk_manager s))"
  let ?id = "snd (AllocatePage (disk_manager s))"
  let ?s0 = "s\<lparr>disk_manager := ?d\<rparr>"
  have inv0: "bpm_inv ?s0" using inv by simp
  have avail0: "free_list ?s0 \<noteq> [] \<or> 0 < rsize (replacer ?s0)" using avail by simp
  from ReplaceAndUpdate_total [OF inv0 avail0, of ?id True] obtain s' f where
    ru: "ReplaceAndUpdate ?s0 ?id True = Some (Inr (s', f))" and vf: "valid_frame ?s0 f"
    and rest: "bpm_inv s'" "length (pages s') = length (pages ?s0)"
      "page_id (frame s' f) = ?id" "pin_count (frame s' f) = 1" "is_dirty (frame s' f) = True"
      "data (frame s' f) = zero_data"
      "free_list ?s0 \<noteq> [] \<longrightarrow> f = hd (free_list ?s0) \<and> free_list s' = tl (free_list ?s0) \<and>
         disk_manager s' = disk_manager ?s0"
      "free_list ?s0 = [] \<longrightarrow> (\<exists>r1. Victim (replacer ?s0) = Some (Inr (r1, True, Some f)))"
    by auto
  have "NewPage s = Some (Inr (s', ?id, Some f))"
    using avail ru by (auto simp: NewPage_def Size_def split_beta)
  moreover have "valid_frame s' f"
    using vf rest(2) by (simp add: valid_frame_def)
  ultimately show ?thesis
    using rest by (intro exI [of _ s'] exI [of _ f]) simp
qed

text \<open>
  Claim C4. In a well-formed pool \<^verbatim>\<open>NewPage\<close> returns null iff the free list is empty and
  the replacer has no candidate; it then writes \<^verbatim>\<open>INVALID_PAGE_ID\<close> to the output and
  leaves the state, the disk included, as it was. Otherwise it returns a frame whose bytes
  are all zero, that is dirty, has a pin count of 1 and holds the page id that
  \<^verbatim>\<open>AllocatePage\<close> returned, which is also what is written to the output. The frame is the
  head of the free list when there is one and the victim of the replacer otherwise. The
  free list branch of \<^verbatim>\<open>ReplaceAndUpdate\<close> does not zero the frame: its bytes are zero
  because every frame of the free list is zeroed, which is part of the pool invariant.
\<close>

theorem NewPage_result:
  assumes "bpm_inv s"
  shows "((\<exists>s' out. NewPage s = Some (Inr (s', out, None))) \<longleftrightarrow>
            free_list s = [] \<and> Size (replacer s) = 0) \<and>
         (free_list s = [] \<and> Size (replacer s) = 0 \<longrightarrow>
            NewPage s = Some (Inr (s, INVALID_PAGE_ID, None))) \<and>
         (free_list s \<noteq> [] \<or> 0 < Size (replacer s) \<longrightarrow>
            (\<exists>s' f. NewPage s = Some (Inr (s', snd (AllocatePage (disk_manager s)), Some f)) \<and>
               valid_frame s' f \<and> data (frame s' f) = zero_data \<and> is_dirty (frame s' f) \<and>
               pin_count (frame s' f) = 1 \<and>
               page_id (frame s' f) = snd (AllocatePage (disk_manager s)) \<and>
               (free_list s \<noteq> [] \<longrightarrow> f = hd (free_list s)) \<and>
               (free_list s = [] \<longrightarrow>
                  (\<exists>r1. Victim (replacer s) = Some (Inr (r1, True, Some f))))))"
proof -
  have none: "NewPage s = Some (Inr (s, INVALID_PAGE_ID, None))"
    if "free_list s = [] \<and> Size (replacer s) = 0"
    using that by (simp add: NewPage_def)
  have some: "\<exists>s' f. NewPage s = Some (Inr (s', snd (AllocatePage (disk_manager s)), Some f)) \<and>
               valid_frame s' f \<and> data (frame s' f) = zero_data \<and> is_dirty (frame s' f) \<and>
               pin_count (frame s' f) = 1 \<and>
               page_id (frame s' f) = snd (AllocatePage (disk_manager s)) \<and>
               (free_list s \<noteq> [] \<longrightarrow> f = hd (free_list s)) \<and>
               (free_list s = [] \<longrightarrow>
                  (\<exists>r1. Victim (replacer s) = Some (Inr (r1, True, Some f))))"
    if "free_list s \<noteq> [] \<or> 0 < Size (replacer s)"
  proof -
    from that have "free_list s \<noteq> [] \<or> 0 < rsize (replacer s)" by (simp add: Size_def)
    from NewPage_total [OF assms this] show ?thesis by blast
  qed
  have "(\<exists>s' out. NewPage s = Some (Inr (s', out, None))) \<longleftrightarrow>
            free_list s = [] \<and> Size (replacer s) = 0"
  proof (cases "free_list s = [] \<and> Size (replacer s) = 0")
    case True
    with none show ?thesis by blast
  next
    case False
    then have "free_list s \<noteq> [] \<or> 0 < Size (replacer s)" by auto
    from some [OF this] False show ?thesis by auto
  qed
  with none some show ?thesis by blast
qed

text \<open>
  \<^verbatim>\<open>NewPage\<close> on the pool with frame 1 in the free list, and on the pool with an empty
  free list where frame 0 is the victim.
\<close>

theorem NewPage_result_witness:
  "bpm_inv s_free \<and> free_list s_free = [1] \<and>
   (\<exists>s'. NewPage s_free = Some (Inr (s', 1, Some 1)) \<and> data (frame s' 1) = zero_data \<and>
      is_dirty (frame s' 1) \<and> pin_count (frame s' 1) = 1 \<and> page_id (frame s' 1) = 1) \<and>
   bpm_inv s_ex \<and> free_list s_ex = [] \<and> Size (replacer s_ex) = 1 \<and>
   (\<exists>s'. NewPage s_ex = Some (Inr (s', 2, Some 0)) \<and> data (frame s' 0) = zero_data \<and>
      is_dirty (frame s' 0) \<and> pin_count (frame s' 0) = 1 \<and> page_id (frame s' 0) = 2)"
proof -
  have a: "free_list s_free = [1]" "snd (AllocatePage (disk_manager s_free)) = 1"
    by (simp_all add: s_free_def AllocatePage_def)
  have b: "free_list s_ex = []" "Size (replacer s_ex) = 1"
    "snd (AllocatePage (disk_manager s_ex)) = 2"
    by (simp_all add: s_ex_def Size_def AllocatePage_def d_ex_def)
  have c: "Victim (replacer s_ex) = Some (Inr (r1, True, Some f)) \<Longrightarrow> f = 0" for r1 f
    by (simp add: s_ex_def Victim_def Victim_loop.simps Let_def size_dec_def
        frame_id_of_size_t_def)
  from NewPage_result [OF bpm_inv_s_free] NewPage_result [OF bpm_inv_s_ex] a b c
    bpm_inv_s_free bpm_inv_s_ex
  show ?thesis by auto
qed

section \<open>The buffer pool manager: no dirty page is lost\<close>

lemma FlushAll_fold:
  "k \<le> length (pages s) \<Longrightarrow>
   length (pages (foldl FlushAll_step s [0..<k])) = length (pages s) \<and>
   (\<forall>i<length (pages s). pages (foldl FlushAll_step s [0..<k]) ! i =
      (if i < k \<and> page_id (pages s ! i) \<noteq> INVALID_PAGE_ID \<and> is_dirty (pages s ! i)
       then (pages s ! i)\<lparr>is_dirty := False\<rparr> else pages s ! i)) \<and>
   calls (disk_manager (foldl FlushAll_step s [0..<k])) =
     calls (disk_manager s) @
     map (\<lambda>i. WritePageCall (page_id (pages s ! i)) (data (pages s ! i)))
       (filter (\<lambda>i. page_id (pages s ! i) \<noteq> INVALID_PAGE_ID \<and> is_dirty (pages s ! i)) [0..<k]) \<and>
   page_table (foldl FlushAll_step s [0..<k]) = page_table s \<and>
   free_list (foldl FlushAll_step s [0..<k]) = free_list s \<and>
   replacer (foldl FlushAll_step s [0..<k]) = replacer s"
proof (induction k)
  case 0
  show ?case by simp
next
  case (Suc k)
  let ?sk = "foldl FlushAll_step s [0..<k]"
  from Suc have k: "k < length (pages s)" and
    ih: "length (pages ?sk) = length (pages s)"
      "\<forall>i<length (pages s). pages ?sk ! i =
        (if i < k \<and> page_id (pages s ! i) \<noteq> INVALID_PAGE_ID \<and> is_dirty (pages s ! i)
         then (pages s ! i)\<lparr>is_dirty := False\<rparr> else pages s ! i)"
      "calls (disk_manager ?sk) =
         calls (disk_manager s) @
         map (\<lambda>i. WritePageCall (page_id (pages s ! i)) (data (pages s ! i)))
           (filter (\<lambda>i. page_id (pages s ! i) \<noteq> INVALID_PAGE_ID \<and> is_dirty (pages s ! i)) [0..<k])"
      "page_table ?sk = page_table s" "free_list ?sk = free_list s" "replacer ?sk = replacer s"
    by simp_all
  have pk: "pages ?sk ! k = pages s ! k" using ih(2) k by simp
  have step: "foldl FlushAll_step s [0..<Suc k] = FlushAll_step ?sk k" by simp
  show ?case
    unfolding step using k ih pk
    by (auto simp: FlushAll_step_def Let_def WritePage_def nth_list_update less_Suc_eq)
qed

text \<open>
  The disk after the loop of \<^verbatim>\<open>FlushAllPagesImpl\<close>: one \<^verbatim>\<open>WritePage\<close> for each frame
  that was dirty with a valid page id at the call, in the order of the frames.
\<close>

lemma write_frames_snoc:
  "write_frames s (is @ [i]) d =
     WritePage (write_frames s is d) (page_id (pages s ! i)) (data (pages s ! i))"
  by (simp add: write_frames_def)

lemma write_frames_calls:
  "calls (write_frames s is d) =
     calls d @ map (\<lambda>i. WritePageCall (page_id (pages s ! i)) (data (pages s ! i))) is"
  by (induction "is" rule: rev_induct) (simp_all add: write_frames_def WritePage_def)

lemma write_frames_next: "next_page_id (write_frames s is d) = next_page_id d"
  by (induction "is" rule: rev_induct) (simp_all add: write_frames_def WritePage_def)

lemma write_frames_store:
  assumes "i \<in> set is"
    and "\<forall>j \<in> set is. j \<noteq> i \<longrightarrow> page_id (pages s ! j) \<noteq> page_id (pages s ! i)"
  shows "store (write_frames s is d) (page_id (pages s ! i)) = data (pages s ! i)"
  using assms
proof (induction "is" rule: rev_induct)
  case Nil
  then show ?case by simp
next
  case (snoc x xs)
  show ?case
  proof (cases "x = i")
    case True
    then show ?thesis by (simp add: write_frames_snoc WritePage_def)
  next
    case False
    with snoc.prems have "i \<in> set xs"
      "\<forall>j \<in> set xs. j \<noteq> i \<longrightarrow> page_id (pages s ! j) \<noteq> page_id (pages s ! i)"
      "page_id (pages s ! x) \<noteq> page_id (pages s ! i)"
      by auto
    with snoc.IH show ?thesis by (simp add: write_frames_snoc WritePage_def)
  qed
qed

lemma FlushAll_fold_disk:
  "k \<le> length (pages s) \<Longrightarrow>
   disk_manager (foldl FlushAll_step s [0..<k]) =
     write_frames s
       (filter (\<lambda>i. page_id (pages s ! i) \<noteq> INVALID_PAGE_ID \<and> is_dirty (pages s ! i)) [0..<k])
       (disk_manager s)"
proof (induction k)
  case 0
  show ?case by (simp add: write_frames_def)
next
  case (Suc k)
  let ?sk = "foldl FlushAll_step s [0..<k]"
  let ?need = "\<lambda>i. page_id (pages s ! i) \<noteq> INVALID_PAGE_ID \<and> is_dirty (pages s ! i)"
  from Suc have k: "k < length (pages s)" "k \<le> length (pages s)" by simp_all
  have pk: "pages ?sk ! k = pages s ! k"
    using FlushAll_fold [OF k(2)] k(1) by simp
  have ih: "disk_manager ?sk = write_frames s (filter ?need [0..<k]) (disk_manager s)"
    using k(2) by (rule Suc.IH)
  have "disk_manager (foldl FlushAll_step s [0..<Suc k]) = disk_manager (FlushAll_step ?sk k)"
    by simp
  also have "\<dots> = (if ?need k
      then WritePage (disk_manager ?sk) (page_id (pages s ! k)) (data (pages s ! k))
      else disk_manager ?sk)"
    using pk by (simp add: FlushAll_step_def Let_def)
  also have "\<dots> = (if ?need k
      then WritePage (write_frames s (filter ?need [0..<k]) (disk_manager s))
             (page_id (pages s ! k)) (data (pages s ! k))
      else write_frames s (filter ?need [0..<k]) (disk_manager s))"
    by (simp only: ih)
  also have "\<dots> = write_frames s (filter ?need [0..<Suc k]) (disk_manager s)"
    by (simp add: write_frames_snoc)
  finally show ?case .
qed

lemma FlushAllPages_disk:
  "disk_manager (FlushAllPages s) = write_frames s (dirty_frames s) (disk_manager s)"
  using FlushAll_fold_disk [of "length (pages s)" s]
  by (simp add: FlushAllPages_def dirty_frames_def pool_size_def)

text \<open>
  Claim C2. When the replacement procedure reuses the victim of the replacer (the free
  list is empty) and the victim is dirty, the first part of \<^verbatim>\<open>ReplaceAndUpdate\<close> writes
  the bytes of the frame to disk under the page id the frame has on entry; after that part
  the frame still has that page id, and only the second part overwrites it with the new
  id, without touching the disk. \<^verbatim>\<open>FlushAllPages\<close> appends to the calls that the disk
  has received exactly one \<^verbatim>\<open>WritePage\<close> for each frame that had a valid page id and was
  dirty at the call, in the order of the frames, with the id and bytes the frame had. So
  for every such frame the write is among the calls made during \<^verbatim>\<open>FlushAllPages\<close>, the
  frame is as before but for its dirty flag, which is clear, and the disk holds the bytes
  of the frame under its page id when no other dirty frame has the same page id.
\<close>

theorem no_dirty_loss:
  assumes "bpm_inv s"
  shows "(free_list s = [] \<and> 0 < Size (replacer s) \<longrightarrow>
            (\<exists>r1 f s1 s2. Victim (replacer s) = Some (Inr (r1, True, Some f)) \<and> valid_frame s f \<and>
               ReplaceAndUpdate_io s new_id np = Some (Inr (s1, f)) \<and>
               ReplaceAndUpdate_meta s1 f new_id np = Inr s2 \<and>
               ReplaceAndUpdate s new_id np = Some (Inr (s2, f)) \<and>
               page_id (frame s1 f) = page_id (frame s f) \<and> page_id (frame s2 f) = new_id \<and>
               disk_manager s2 = disk_manager s1 \<and>
               (is_dirty (frame s f) \<longrightarrow>
                  calls (disk_manager s1) =
                    calls (disk_manager s) @
                    WritePageCall (page_id (frame s f)) (data (frame s f)) #
                    (if np then [] else [ReadPageCall new_id]) \<and>
                  store (disk_manager s1) (page_id (frame s f)) = data (frame s f)))) \<and>
         calls (disk_manager (FlushAllPages s)) =
           calls (disk_manager s) @
           map (\<lambda>i. WritePageCall (page_id (pages s ! i)) (data (pages s ! i))) (dirty_frames s) \<and>
         (\<forall>i<pool_size s.
            page_id (pages s ! i) \<noteq> INVALID_PAGE_ID \<and> is_dirty (pages s ! i) \<longrightarrow>
              i \<in> set (dirty_frames s) \<and>
              WritePageCall (page_id (pages s ! i)) (data (pages s ! i))
                \<in> set (drop (length (calls (disk_manager s)))
                         (calls (disk_manager (FlushAllPages s)))) \<and>
              WritePageCall (page_id (pages s ! i)) (data (pages s ! i))
                \<in> set (calls (disk_manager (FlushAllPages s))) \<and>
              pages (FlushAllPages s) ! i = (pages s ! i)\<lparr>is_dirty := False\<rparr> \<and>
              \<not> is_dirty (pages (FlushAllPages s) ! i) \<and>
              ((\<forall>j<pool_size s. j \<noteq> i \<and> page_id (pages s ! j) = page_id (pages s ! i) \<longrightarrow>
                    \<not> is_dirty (pages s ! j)) \<longrightarrow>
                 store (disk_manager (FlushAllPages s)) (page_id (pages s ! i)) =
                   data (pages s ! i)))"
proof -
  have repl: "free_list s = [] \<and> 0 < Size (replacer s) \<longrightarrow>
            (\<exists>r1 f s1 s2. Victim (replacer s) = Some (Inr (r1, True, Some f)) \<and> valid_frame s f \<and>
               ReplaceAndUpdate_io s new_id np = Some (Inr (s1, f)) \<and>
               ReplaceAndUpdate_meta s1 f new_id np = Inr s2 \<and>
               ReplaceAndUpdate s new_id np = Some (Inr (s2, f)) \<and>
               page_id (frame s1 f) = page_id (frame s f) \<and> page_id (frame s2 f) = new_id \<and>
               disk_manager s2 = disk_manager s1 \<and>
               (is_dirty (frame s f) \<longrightarrow>
                  calls (disk_manager s1) =
                    calls (disk_manager s) @
                    WritePageCall (page_id (frame s f)) (data (frame s f)) #
                    (if np then [] else [ReadPageCall new_id]) \<and>
                  store (disk_manager s1) (page_id (frame s f)) = data (frame s f)))"
  proof
    assume a: "free_list s = [] \<and> 0 < Size (replacer s)"
    then have fl: "free_list s = []" and pos: "0 < rsize (replacer s)"
      by (simp_all add: Size_def)
    from ReplaceAndUpdate_io_victim [OF assms fl pos] obtain r1 f where
      v: "Victim (replacer s) = Some (Inr (r1, True, Some f))" and vf: "valid_frame s f"
      and io: "\<And>new_id. ReplaceAndUpdate_io s new_id True =
                  Some (Inr (set_frame
                    (s\<lparr>page_table := emplace ((page_table s)(page_id (frame s f) := None)) new_id f,
                        replacer := r1, disk_manager := victim_disk s f\<rparr>) f
                    (ResetMemory (frame s f)), f))"
         "\<And>new_id. ReplaceAndUpdate_io s new_id False =
                  Some (Inr (set_frame
                    (s\<lparr>page_table := emplace ((page_table s)(page_id (frame s f) := None)) new_id f,
                        replacer := r1,
                        disk_manager := fst (ReadPage (victim_disk s f) new_id)\<rparr>) f
                    ((frame s f)\<lparr>data := store (victim_disk s f) new_id\<rparr>), f))"
      by blast
    show "\<exists>r1 f s1 s2. Victim (replacer s) = Some (Inr (r1, True, Some f)) \<and> valid_frame s f \<and>
                 ReplaceAndUpdate_io s new_id np = Some (Inr (s1, f)) \<and>
                 ReplaceAndUpdate_meta s1 f new_id np = Inr s2 \<and>
                 ReplaceAndUpdate s new_id np = Some (Inr (s2, f)) \<and>
                 page_id (frame s1 f) = page_id (frame s f) \<and> page_id (frame s2 f) = new_id \<and>
                 disk_manager s2 = disk_manager s1 \<and>
                 (is_dirty (frame s f) \<longrightarrow>
                    calls (disk_manager s1) =
                      calls (disk_manager s) @
                      WritePageCall (page_id (frame s f)) (data (frame s f)) #
                      (if np then [] else [ReadPageCall new_id]) \<and>
                    store (disk_manager s1) (page_id (frame s f)) = data (frame s f))"
    proof (cases np)
      case True
      let ?s1 = "set_frame
                    (s\<lparr>page_table := emplace ((page_table s)(page_id (frame s f) := None)) new_id f,
                        replacer := r1, disk_manager := victim_disk s f\<rparr>) f
                    (ResetMemory (frame s f))"
      let ?s2 = "set_frame ?s1 f ((frame ?s1 f)\<lparr>page_id := new_id, pin_count := 1, is_dirty := np\<rparr>)"
      have "ReplaceAndUpdate_io s new_id np = Some (Inr (?s1, f))"
        using True io(1) by simp
      moreover have "ReplaceAndUpdate_meta ?s1 f new_id np = Inr ?s2"
        using vf by (simp add: ReplaceAndUpdate_meta_def)
      ultimately show ?thesis
        using v vf True
        by (intro exI [of _ r1] exI [of _ f] exI [of _ ?s1] exI [of _ ?s2])
           (simp add: ReplaceAndUpdate_def ResetMemory_def victim_disk_def WritePage_def)
    next
      case False
      let ?s1 = "set_frame
                    (s\<lparr>page_table := emplace ((page_table s)(page_id (frame s f) := None)) new_id f,
                        replacer := r1,
                        disk_manager := fst (ReadPage (victim_disk s f) new_id)\<rparr>) f
                    ((frame s f)\<lparr>data := store (victim_disk s f) new_id\<rparr>)"
      let ?s2 = "set_frame ?s1 f ((frame ?s1 f)\<lparr>page_id := new_id, pin_count := 1, is_dirty := np\<rparr>)"
      have "ReplaceAndUpdate_io s new_id np = Some (Inr (?s1, f))"
        using False io(2) by simp
      moreover have "ReplaceAndUpdate_meta ?s1 f new_id np = Inr ?s2"
        using vf by (simp add: ReplaceAndUpdate_meta_def)
      ultimately show ?thesis
        using v vf False
        by (intro exI [of _ r1] exI [of _ f] exI [of _ ?s1] exI [of _ ?s2])
           (simp add: ReplaceAndUpdate_def victim_disk_def WritePage_def ReadPage_def)
    qed
  qed
  note fa = FlushAll_fold [of "length (pages s)" s]
  have log: "calls (disk_manager (FlushAllPages s)) =
           calls (disk_manager s) @
           map (\<lambda>i. WritePageCall (page_id (pages s ! i)) (data (pages s ! i))) (dirty_frames s)"
    using fa by (simp add: FlushAllPages_def dirty_frames_def pool_size_def)
  have each: "\<forall>i<pool_size s.
            page_id (pages s ! i) \<noteq> INVALID_PAGE_ID \<and> is_dirty (pages s ! i) \<longrightarrow>
              i \<in> set (dirty_frames s) \<and>
              WritePageCall (page_id (pages s ! i)) (data (pages s ! i))
                \<in> set (drop (length (calls (disk_manager s)))
                         (calls (disk_manager (FlushAllPages s)))) \<and>
              WritePageCall (page_id (pages s ! i)) (data (pages s ! i))
                \<in> set (calls (disk_manager (FlushAllPages s))) \<and>
              pages (FlushAllPages s) ! i = (pages s ! i)\<lparr>is_dirty := False\<rparr> \<and>
              \<not> is_dirty (pages (FlushAllPages s) ! i) \<and>
              ((\<forall>j<pool_size s. j \<noteq> i \<and> page_id (pages s ! j) = page_id (pages s ! i) \<longrightarrow>
                    \<not> is_dirty (pages s ! j)) \<longrightarrow>
                 store (disk_manager (FlushAllPages s)) (page_id (pages s ! i)) =
                   data (pages s ! i))"
  proof (intro allI impI)
    fix i
    assume i: "i < pool_size s"
      and d: "page_id (pages s ! i) \<noteq> INVALID_PAGE_ID \<and> is_dirty (pages s ! i)"
    have mem: "i \<in> set (dirty_frames s)"
      using i d by (simp add: dirty_frames_def)
    then have w: "WritePageCall (page_id (pages s ! i)) (data (pages s ! i))
        \<in> set (drop (length (calls (disk_manager s))) (calls (disk_manager (FlushAllPages s))))"
      unfolding log by simp
    then have w': "WritePageCall (page_id (pages s ! i)) (data (pages s ! i))
        \<in> set (calls (disk_manager (FlushAllPages s)))"
      by (rule in_set_dropD)
    have pg: "pages (FlushAllPages s) ! i = (pages s ! i)\<lparr>is_dirty := False\<rparr>"
      using fa i d by (simp add: FlushAllPages_def pool_size_def)
    have st: "store (disk_manager (FlushAllPages s)) (page_id (pages s ! i)) = data (pages s ! i)"
      if u: "\<forall>j<pool_size s. j \<noteq> i \<and> page_id (pages s ! j) = page_id (pages s ! i) \<longrightarrow>
                    \<not> is_dirty (pages s ! j)"
    proof -
      have "\<forall>j \<in> set (dirty_frames s). j \<noteq> i \<longrightarrow> page_id (pages s ! j) \<noteq> page_id (pages s ! i)"
        using u by (auto simp: dirty_frames_def)
      with mem show ?thesis
        unfolding FlushAllPages_disk by (rule write_frames_store)
    qed
    from mem w w' pg st
    show "i \<in> set (dirty_frames s) \<and>
              WritePageCall (page_id (pages s ! i)) (data (pages s ! i))
                \<in> set (drop (length (calls (disk_manager s)))
                         (calls (disk_manager (FlushAllPages s)))) \<and>
              WritePageCall (page_id (pages s ! i)) (data (pages s ! i))
                \<in> set (calls (disk_manager (FlushAllPages s))) \<and>
              pages (FlushAllPages s) ! i = (pages s ! i)\<lparr>is_dirty := False\<rparr> \<and>
              \<not> is_dirty (pages (FlushAllPages s) ! i) \<and>
              ((\<forall>j<pool_size s. j \<noteq> i \<and> page_id (pages s ! j) = page_id (pages s ! i) \<longrightarrow>
                    \<not> is_dirty (pages s ! j)) \<longrightarrow>
                 store (disk_manager (FlushAllPages s)) (page_id (pages s ! i)) =
                   data (pages s ! i))"
      by simp
  qed
  from repl log each show ?thesis by (intro conjI)
qed

text \<open>
  In the example pool the victim is frame 0, dirty, with page 0: page 0 is written before
  the frame becomes page 2. \<^verbatim>\<open>FlushAllPages\<close> makes two calls, a write of page 0 and a
  write of page 1, and the disk then holds the bytes of both.
\<close>

theorem no_dirty_loss_witness:
  "bpm_inv s_ex \<and> free_list s_ex = [] \<and> 0 < Size (replacer s_ex) \<and>
   frame s_ex 0 = \<lparr>data = bytes_ex, page_id = 0, pin_count = 0, is_dirty = True\<rparr> \<and>
   (\<exists>r1 s1 s2. Victim (replacer s_ex) = Some (Inr (r1, True, Some 0)) \<and>
      ReplaceAndUpdate_io s_ex 2 True = Some (Inr (s1, 0)) \<and>
      ReplaceAndUpdate s_ex 2 True = Some (Inr (s2, 0)) \<and>
      page_id (frame s1 0) = 0 \<and> page_id (frame s2 0) = 2 \<and>
      calls (disk_manager s1) = calls d_ex @ [WritePageCall 0 bytes_ex] \<and>
      store (disk_manager s1) 0 = bytes_ex \<and> disk_manager s2 = disk_manager s1) \<and>
   pool_size s_ex = 2 \<and> dirty_frames s_ex = [0, 1] \<and>
   calls (disk_manager (FlushAllPages s_ex)) =
     calls d_ex @ [WritePageCall 0 bytes_ex, WritePageCall 1 zero_data] \<and>
   WritePageCall 0 bytes_ex \<in> set (calls (disk_manager (FlushAllPages s_ex))) \<and>
   \<not> is_dirty (pages (FlushAllPages s_ex) ! 0) \<and>
   store (disk_manager (FlushAllPages s_ex)) 0 = bytes_ex \<and>
   WritePageCall 1 zero_data \<in> set (calls (disk_manager (FlushAllPages s_ex))) \<and>
   \<not> is_dirty (pages (FlushAllPages s_ex) ! 1) \<and>
   store (disk_manager (FlushAllPages s_ex)) 1 = zero_data"
proof -
  have a: "free_list s_ex = []" "0 < Size (replacer s_ex)" "pool_size s_ex = 2"
    "frame s_ex 0 = \<lparr>data = bytes_ex, page_id = 0, pin_count = 0, is_dirty = True\<rparr>"
    "pages s_ex ! 0 = \<lparr>data = bytes_ex, page_id = 0, pin_count = 0, is_dirty = True\<rparr>"
    "pages s_ex ! 1 = \<lparr>data = zero_data, page_id = 1, pin_count = 1, is_dirty = True\<rparr>"
    "pages s_ex ! Suc 0 = \<lparr>data = zero_data, page_id = 1, pin_count = 1, is_dirty = True\<rparr>"
    "disk_manager s_ex = d_ex"
    by (simp_all add: s_ex_def Size_def pool_size_def frame_def)
  have df: "dirty_frames s_ex = [0, 1]"
    by (simp add: dirty_frames_def s_ex_def pool_size_def INVALID_PAGE_ID_def upt_rec)
  have c: "Victim (replacer s_ex) = Some (Inr (r1, True, Some f)) \<Longrightarrow> f = 0" for r1 f
    by (simp add: s_ex_def Victim_def Victim_loop.simps Let_def size_dec_def
        frame_id_of_size_t_def)
  note t = no_dirty_loss [OF bpm_inv_s_ex, of 2 True]
  have lg: "calls (disk_manager (FlushAllPages s_ex)) =
      calls d_ex @ [WritePageCall 0 bytes_ex, WritePageCall 1 zero_data]"
    using t [THEN conjunct2, THEN conjunct1] a by (simp add: df)
  have two: "j < 2 \<longleftrightarrow> j = 0 \<or> j = Suc 0" for j :: nat by auto
  have fa0: "WritePageCall 0 bytes_ex \<in> set (calls (disk_manager (FlushAllPages s_ex))) \<and>
      \<not> is_dirty (pages (FlushAllPages s_ex) ! 0) \<and>
      store (disk_manager (FlushAllPages s_ex)) 0 = bytes_ex"
    using t [THEN conjunct2, THEN conjunct2, rule_format, of 0] a
    by (simp add: INVALID_PAGE_ID_def two)
  have fa1: "WritePageCall 1 zero_data \<in> set (calls (disk_manager (FlushAllPages s_ex))) \<and>
      \<not> is_dirty (pages (FlushAllPages s_ex) ! 1) \<and>
      store (disk_manager (FlushAllPages s_ex)) 1 = zero_data"
    using t [THEN conjunct2, THEN conjunct2, rule_format, of 1] a
    by (simp add: INVALID_PAGE_ID_def two)
  from t [THEN conjunct1] a c bpm_inv_s_ex fa0 fa1 lg df
  show ?thesis by auto
qed

section \<open>The buffer pool manager: deleting a page\<close>

text \<open>
  What \<^verbatim>\<open>DeletePage\<close> does in a well-formed pool, case by case. The last case is the
  successful deletion: its returned flag is \<open>False\<close>.
\<close>

lemma DeletePage_cases:
  assumes "bpm_inv s"
  shows "(page_table s p = None \<longrightarrow>
            DeletePage s p = Inr (s\<lparr>disk_manager := DeallocatePage (disk_manager s) p\<rparr>, True)) \<and>
         (\<forall>f. page_table s p = Some f \<and> 0 < pin_count (frame s f) \<longrightarrow>
            DeletePage s p = Inr (s, False)) \<and>
         (\<forall>f. page_table s p = Some f \<and> pin_count (frame s f) \<le> 0 \<longrightarrow>
            (\<exists>r1. Pin (replacer s) f = Inr r1 \<and>
               DeletePage s p =
                 Inr ((set_frame s f
                        ((frame s f)\<lparr>data := zero_data, page_id := INVALID_PAGE_ID,
                                      is_dirty := False\<rparr>))
                      \<lparr>replacer := r1, page_table := (page_table s)(p := None),
                        free_list := free_list s @ [f],
                        disk_manager := DeallocatePage (disk_manager s) p\<rparr>, False)))"
proof (intro conjI allI impI)
  show "DeletePage s p = Inr (s\<lparr>disk_manager := DeallocatePage (disk_manager s) p\<rparr>, True)"
    if "page_table s p = None"
    using that by (simp add: DeletePage_def)
next
  fix f
  assume a: "page_table s p = Some f \<and> 0 < pin_count (frame s f)"
  with bpm_inv_resident(1) [OF assms, of p f] show "DeletePage s p = Inr (s, False)"
    by (simp add: DeletePage_def)
next
  fix f
  assume a: "page_table s p = Some f \<and> pin_count (frame s f) \<le> 0"
  then have res: "page_table s p = Some f" by simp
  note r = bpm_inv_resident [OF assms res]
  from Pin_inv [OF r(5,3,4)] obtain r1 where "Pin (replacer s) f = Inr r1" by blast
  with a r(1) show "\<exists>r1. Pin (replacer s) f = Inr r1 \<and>
               DeletePage s p =
                 Inr ((set_frame s f
                        ((frame s f)\<lparr>data := zero_data, page_id := INVALID_PAGE_ID,
                                      is_dirty := False\<rparr>))
                      \<lparr>replacer := r1, page_table := (page_table s)(p := None),
                        free_list := free_list s @ [f],
                        disk_manager := DeallocatePage (disk_manager s) p\<rparr>, False)"
    by (simp add: DeletePage_def Let_def ResetMemory_def)
qed

text \<open>
  Claim C1 fails on the code. Page 0 of the example pool is resident with a pin count of 0.
  \<^verbatim>\<open>DeletePage(0)\<close> removes it from the page table, removes its frame from the replacer,
  pushes the frame onto the free list, deallocates the page on disk and resets the frame,
  as the claim says, and then returns false where the claim says true.
\<close>

theorem DeletePage_success_returns_false:
  "page_table s_ex 0 = Some 0 \<and> pin_count (frame s_ex 0) = 0 \<and>
   (case DeletePage s_ex 0 of
      Inl e \<Rightarrow> False
    | Inr (s', b) \<Rightarrow>
        b = False \<and> page_table s' 0 = None \<and> free_list s' = [0] \<and>
        clock (replacer s') = [(False, False), (False, False)] \<and>
        calls (disk_manager s') = calls (disk_manager s_ex) @ [DeallocatePageCall 0] \<and>
        frame s' 0 = \<lparr>data = zero_data, page_id = INVALID_PAGE_ID, pin_count = 0,
                      is_dirty = False\<rparr>)"
  by (simp add: s_ex_def frame_def DeletePage_def valid_frame_def Pin_def size_t_of_frame_id_def
      Let_def set_frame_def ResetMemory_def DeallocatePage_def size_dec_def)

section \<open>The buffer pool manager: the pool invariant\<close>

text \<open>
  The constructor establishes the invariant \<open>bpm_inv\<close>, and every operation that returns
  preserves it, as does a client that writes to the bytes of a frame it has pinned. So the
  invariant holds in every state that the pool reaches.
\<close>

text \<open>
  A change of one frame that is not in the free list and keeps its page id, with a
  replacer that differs at the slot of that frame only.
\<close>

lemma bpm_inv_update_frame:
  assumes inv: "bpm_inv s" and vf: "valid_frame s f" and nfree: "f \<notin> set (free_list s)"
    and pid: "page_id P = page_id (frame s f)"
    and r': "replacer_inv r'" "length (clock r') = length (clock (replacer s))"
      "\<forall>i<length (clock (replacer s)). i \<noteq> nat f \<longrightarrow>
          fst (clock r' ! i) = fst (clock (replacer s) ! i)"
      "fst (clock r' ! nat f) \<longrightarrow> page_table s (page_id (frame s f)) = Some f"
  shows "bpm_inv ((set_frame s f P)\<lparr>replacer := r'\<rparr>)"
proof -
  let ?s' = "(set_frame s f P)\<lparr>replacer := r'\<rparr>"
  have len: "length (clock (replacer s)) = length (pages s)"
    and dist: "distinct (free_list s)"
    and free: "\<And>g. g \<in> set (free_list s) \<Longrightarrow> valid_frame s g \<and> data (frame s g) = zero_data \<and>
         pin_count (frame s g) \<le> 0 \<and>
         \<not> fst (clock (replacer s) ! nat g) \<and> g \<notin> ran (page_table s)"
    and tab: "\<And>p g. page_table s p = Some g \<Longrightarrow> valid_frame s g \<and> page_id (frame s g) = p"
    and cand: "\<And>i. i < length (pages s) \<Longrightarrow> fst (clock (replacer s) ! i) \<Longrightarrow>
         page_table s (page_id (pages s ! i)) = Some (int i)"
    using inv by (auto simp: bpm_inv_def)
  have f0: "0 \<le> f" using vf by (simp add: valid_frame_def)
  have nf: "nat f < length (pages s)" using vf by (rule valid_frame_nat)
  have 1: "replacer_inv (replacer ?s')" "length (clock (replacer ?s')) = length (pages ?s')"
    "distinct (free_list ?s')"
    using r' len dist by simp_all
  have 2: "valid_frame ?s' g \<and> data (frame ?s' g) = zero_data \<and>
         pin_count (frame ?s' g) \<le> 0 \<and>
         \<not> fst (clock (replacer ?s') ! nat g) \<and> g \<notin> ran (page_table ?s')"
    if "g \<in> set (free_list ?s')" for g
  proof -
    from that have g: "g \<in> set (free_list s)" "g \<noteq> f" using nfree by auto
    have vg: "valid_frame s g" using free [OF g(1)] by simp
    then have "nat g < length (clock (replacer s))" "nat g \<noteq> nat f"
      using g(2) f0 len by (auto simp: valid_frame_def)
    with r'(3) have "fst (clock r' ! nat g) = fst (clock (replacer s) ! nat g)" by simp
    then show ?thesis
      using free [OF g(1)] g(2) vf by (simp add: frame_set_frame_other)
  qed
  have 3: "valid_frame ?s' g \<and> page_id (frame ?s' g) = p" if "page_table ?s' p = Some g" for p g
  proof (cases "g = f")
    case True
    with that tab [of p g] vf pid show ?thesis by simp
  next
    case False
    with that tab [of p g] vf show ?thesis by (simp add: frame_set_frame_other)
  qed
  have 4: "page_table ?s' (page_id (pages ?s' ! i)) = Some (int i)"
    if "i < length (pages ?s')" "fst (clock (replacer ?s') ! i)" for i
  proof (cases "i = nat f")
    case True
    with that r'(4) f0 nf pid show ?thesis by simp
  next
    case False
    with that r'(3) len have "fst (clock (replacer s) ! i)" "i < length (pages s)" by simp_all
    with cand [of i] False show ?thesis by simp
  qed
  show ?thesis
    unfolding bpm_inv_def using 1 2 3 4 by blast
qed

lemma bpm_inv_update_frame_only:
  assumes "bpm_inv s" "valid_frame s f" "f \<notin> set (free_list s)" "page_id P = page_id (frame s f)"
  shows "bpm_inv (set_frame s f P)"
proof -
  have c: "fst (clock (replacer s) ! nat f) \<longrightarrow> page_table s (page_id (frame s f)) = Some f"
    using assms(1,2) by (auto simp: bpm_inv_def valid_frame_def frame_def)
  have "bpm_inv ((set_frame s f P)\<lparr>replacer := replacer s\<rparr>)"
    using assms c by (intro bpm_inv_update_frame) (simp_all add: bpm_inv_def)
  then show ?thesis by (simp add: set_frame_def)
qed

lemma set_frame_replacer_same [simp]:
  "(set_frame s f P)\<lparr>replacer := replacer s\<rparr> = set_frame s f P"
  by (simp add: set_frame_def)

lemma resident_not_free:
  "bpm_inv s \<Longrightarrow> page_table s p = Some f \<Longrightarrow> f \<notin> set (free_list s)"
  by (auto simp: bpm_inv_def ran_def)

lemma BufferPoolManager_new_inv:
  assumes "0 < n" "n < 2 ^ 31"
  shows "bpm_inv (BufferPoolManager_new n d)"
proof -
  have "replacer_inv (ClockReplacer_new n)"
    using assms by (rule ClockReplacer_new_inv)
  moreover have "distinct (map int [0..<n])"
    by (simp add: distinct_map inj_on_def)
  ultimately show ?thesis
    by (auto simp: bpm_inv_def BufferPoolManager_new_def ClockReplacer_new_def valid_frame_def
        frame_def Page_new_def)
qed

lemma NewPage_inv:
  assumes "bpm_inv s" "NewPage s = Some (Inr (s', out, r))"
  shows "bpm_inv s'"
proof (cases "free_list s = [] \<and> Size (replacer s) = 0")
  case True
  with assms show ?thesis by (simp add: NewPage_def)
next
  case False
  then have "free_list s \<noteq> [] \<or> 0 < rsize (replacer s)" by (auto simp: Size_def)
  from NewPage_total [OF assms(1) this] assms(2) show ?thesis by auto
qed

lemma FetchPage_inv:
  assumes inv: "bpm_inv s" and res: "FetchPage s p = Some (Inr (s', r))"
  shows "bpm_inv s'"
proof (cases "page_table s p")
  case None
  show ?thesis
  proof (cases "free_list s = [] \<and> Size (replacer s) = 0")
    case True
    with None res inv show ?thesis by (simp add: FetchPage_def)
  next
    case False
    then have "free_list s \<noteq> [] \<or> 0 < rsize (replacer s)" by (auto simp: Size_def)
    from ReplaceAndUpdate_total [OF inv this, of p False] obtain s1 f where
      "ReplaceAndUpdate s p False = Some (Inr (s1, f))" "bpm_inv s1" by blast
    with None False res show ?thesis by (auto simp: FetchPage_def)
  qed
next
  case (Some f)
  note r = bpm_inv_resident [OF inv Some]
  have nfree: "f \<notin> set (free_list s)" using inv Some by (rule resident_not_free)
  let ?P = "(frame s f)\<lparr>pin_count := pin_count (frame s f) + 1\<rparr>"
  show ?thesis
  proof (cases "pin_count (frame s f) + 1 > 0")
    case True
    from Pin_inv [OF r(5,3,4)] obtain r1 where
      r1: "Pin (replacer s) f = Inr r1" "replacer_inv r1"
        "length (clock r1) = length (clock (replacer s))"
        "clock r1 = (clock (replacer s))[nat f := (False, False)]"
      by blast
    have "s' = (set_frame s f ?P)\<lparr>replacer := r1\<rparr>"
      using res Some r(1) True r1(1)
      by (auto simp: FetchPage_def Let_def split: if_splits)
    moreover have "bpm_inv ((set_frame s f ?P)\<lparr>replacer := r1\<rparr>)"
      using inv r(1) nfree r1 r(3,4) by (intro bpm_inv_update_frame) simp_all
    ultimately show ?thesis by simp
  next
    case False
    have "s' = set_frame s f ?P"
      using res Some r(1) False
      by (auto simp: FetchPage_def Let_def split: if_splits)
    moreover have "bpm_inv (set_frame s f ?P)"
      using inv r(1) nfree by (rule bpm_inv_update_frame_only) simp
    ultimately show ?thesis by simp
  qed
qed

lemma UnpinPage_inv:
  assumes inv: "bpm_inv s" and res: "UnpinPage s p d = Inr (s', b)"
  shows "bpm_inv s'"
proof (cases "page_table s p")
  case None
  with res show ?thesis by (simp add: UnpinPage_def)
next
  case (Some f)
  note r = bpm_inv_resident [OF inv Some]
  have nfree: "f \<notin> set (free_list s)" using inv Some by (rule resident_not_free)
  let ?P = "(frame s f)\<lparr>pin_count := pin_count (frame s f) - 1,
              is_dirty := is_dirty (frame s f) \<or> d\<rparr>"
  show ?thesis
  proof (cases "pin_count (frame s f) \<le> 0")
    case True
    with res Some r(1) inv show ?thesis by (simp add: UnpinPage_def)
  next
    case False
    show ?thesis
    proof (cases "pin_count (frame s f) = 1")
      case True
      from Unpin_inv [OF r(5,3,4)] obtain r1 where
        r1: "Unpin (replacer s) f = Inr r1" "replacer_inv r1"
          "length (clock r1) = length (clock (replacer s))"
          "clock r1 = (clock (replacer s))[nat f := (True, True)]"
        by blast
      have "s' = (set_frame s f ?P)\<lparr>replacer := r1\<rparr>"
        using res Some r(1) True r1(1) by (simp add: UnpinPage_def Let_def)
      moreover have "bpm_inv ((set_frame s f ?P)\<lparr>replacer := r1\<rparr>)"
        using inv r(1) nfree r1 r(2,3,4) Some by (intro bpm_inv_update_frame) simp_all
      ultimately show ?thesis by simp
    next
      case F1: False
      have "s' = set_frame s f ?P"
        using res Some r(1) False F1 by (simp add: UnpinPage_def Let_def)
      moreover have "bpm_inv (set_frame s f ?P)"
        using inv r(1) nfree by (rule bpm_inv_update_frame_only) simp
      ultimately show ?thesis by simp
    qed
  qed
qed

lemma FlushPage_inv:
  assumes inv: "bpm_inv s" and res: "FlushPage s p = Inr (s', b)"
  shows "bpm_inv s'"
proof (cases "page_table s p")
  case None
  with res inv show ?thesis by (simp add: FlushPage_def)
next
  case (Some f)
  note r = bpm_inv_resident [OF inv Some]
  have nfree: "f \<notin> set (free_list s)" using inv Some by (rule resident_not_free)
  have "bpm_inv (set_frame s f ((frame s f)\<lparr>is_dirty := False\<rparr>))"
    using inv r(1) nfree by (rule bpm_inv_update_frame_only) simp
  with res Some r(1) inv show ?thesis
    by (auto simp: FlushPage_def Let_def split: if_splits)
qed

lemma client_write_inv:
  assumes inv: "bpm_inv s" and vf: "valid_frame s f" and pinned: "0 < pin_count (frame s f)"
  shows "bpm_inv (set_frame s f ((frame s f)\<lparr>data := bytes\<rparr>))"
proof -
  have "f \<notin> set (free_list s)"
    using inv pinned by (auto simp: bpm_inv_def)
  with inv vf show ?thesis by (rule bpm_inv_update_frame_only) simp
qed

lemma bpm_inv_cong:
  assumes inv: "bpm_inv s" and same: "replacer s' = replacer s" "page_table s' = page_table s"
    "free_list s' = free_list s" "length (pages s') = length (pages s)"
    and fr: "\<forall>i<length (pages s). page_id (pages s' ! i) = page_id (pages s ! i) \<and>
               pin_count (pages s' ! i) = pin_count (pages s ! i) \<and>
               data (pages s' ! i) = data (pages s ! i)"
  shows "bpm_inv s'"
proof -
  have vf: "valid_frame s' g = valid_frame s g" for g
    using same(4) by (simp add: valid_frame_def)
  have f: "page_id (frame s' g) = page_id (frame s g) \<and>
           pin_count (frame s' g) = pin_count (frame s g) \<and>
           data (frame s' g) = data (frame s g)" if "valid_frame s g" for g
    using fr valid_frame_nat [OF that] by (simp add: frame_def)
  show ?thesis
    using inv same fr unfolding bpm_inv_def vf by (auto simp: f)
qed

lemma FlushAllPages_inv:
  assumes "bpm_inv s"
  shows "bpm_inv (FlushAllPages s)"
proof -
  note fa = FlushAll_fold [of "length (pages s)" s]
  have same: "replacer (FlushAllPages s) = replacer s" "page_table (FlushAllPages s) = page_table s"
    "free_list (FlushAllPages s) = free_list s" "length (pages (FlushAllPages s)) = length (pages s)"
    using fa by (simp_all add: FlushAllPages_def pool_size_def)
  have "\<forall>i<length (pages s).
       page_id (pages (FlushAllPages s) ! i) = page_id (pages s ! i) \<and>
       pin_count (pages (FlushAllPages s) ! i) = pin_count (pages s ! i) \<and>
       data (pages (FlushAllPages s) ! i) = data (pages s ! i)"
    using fa by (simp add: FlushAllPages_def pool_size_def)
  with assms same show ?thesis by (rule bpm_inv_cong)
qed

lemma DeletePage_inv:
  assumes inv: "bpm_inv s" and res: "DeletePage s p = Inr (s', b)"
  shows "bpm_inv s'"
proof (cases "page_table s p")
  case None
  with res inv show ?thesis by (auto simp: DeletePage_def)
next
  case (Some f)
  note r = bpm_inv_resident [OF inv Some]
  show ?thesis
  proof (cases "0 < pin_count (frame s f)")
    case True
    with res Some r(1) inv show ?thesis by (simp add: DeletePage_def)
  next
    case False
    let ?P = "(frame s f)\<lparr>data := zero_data, page_id := INVALID_PAGE_ID, is_dirty := False\<rparr>"
    from Pin_inv [OF r(5,3,4)] obtain r1 where
      r1: "Pin (replacer s) f = Inr r1" "replacer_inv r1"
        "length (clock r1) = length (clock (replacer s))"
        "clock r1 = (clock (replacer s))[nat f := (False, False)]"
      by blast
    let ?s' = "(set_frame s f ?P)\<lparr>replacer := r1, page_table := (page_table s)(p := None),
                free_list := free_list s @ [f]\<rparr>"
    have s': "s' = ?s'\<lparr>disk_manager := DeallocatePage (disk_manager s) p\<rparr>"
      using res Some r(1) False r1(1) by (simp add: DeletePage_def Let_def ResetMemory_def)
    have len: "length (clock (replacer s)) = length (pages s)"
      and dist: "distinct (free_list s)"
      and free: "\<And>g. g \<in> set (free_list s) \<Longrightarrow> valid_frame s g \<and> data (frame s g) = zero_data \<and>
         pin_count (frame s g) \<le> 0 \<and>
         \<not> fst (clock (replacer s) ! nat g) \<and> g \<notin> ran (page_table s)"
      and tab: "\<And>q g. page_table s q = Some g \<Longrightarrow> valid_frame s g \<and> page_id (frame s g) = q"
      and cand: "\<And>i. i < length (pages s) \<Longrightarrow> fst (clock (replacer s) ! i) \<Longrightarrow>
         page_table s (page_id (pages s ! i)) = Some (int i)"
      using inv by (auto simp: bpm_inv_def)
    have nfree: "f \<notin> set (free_list s)" using inv Some by (rule resident_not_free)
    have nf: "nat f < length (pages s)" using r(1) by (rule valid_frame_nat)
    have only: "g = f \<Longrightarrow> q = p" if "page_table s q = Some g" for q g
      using tab [OF that] r(2) by auto
    have nran: "f \<notin> ran ((page_table s)(p := None))"
      using only by (auto simp: ran_def split: if_splits)
    have 1: "replacer_inv (replacer ?s')" "length (clock (replacer ?s')) = length (pages ?s')"
      "distinct (free_list ?s')"
      using r1 len dist nfree by simp_all
    have 2: "valid_frame ?s' g \<and> data (frame ?s' g) = zero_data \<and>
         pin_count (frame ?s' g) \<le> 0 \<and>
         \<not> fst (clock (replacer ?s') ! nat g) \<and> g \<notin> ran (page_table ?s')"
      if "g \<in> set (free_list ?s')" for g
    proof (cases "g = f")
      case True
      with r(1) nf False len r1(4) nran show ?thesis by simp
    next
      case F: False
      with that have g: "g \<in> set (free_list s)" by simp
      have vg: "valid_frame s g" using free [OF g] by simp
      then have "nat g \<noteq> nat f" using F r(3) by (auto simp: valid_frame_def)
      moreover have "g \<notin> ran ((page_table s)(p := None))"
        using free [OF g] by (auto simp: ran_def split: if_splits)
      ultimately show ?thesis
        using free [OF g] F r(1) r1(4) by (simp add: frame_set_frame_other)
    qed
    have 3: "valid_frame ?s' g \<and> page_id (frame ?s' g) = q" if "page_table ?s' q = Some g" for q g
    proof -
      from that have a: "page_table s q = Some g" "q \<noteq> p" by (auto split: if_splits)
      with only [OF a(1)] have "g \<noteq> f" by auto
      with tab [OF a(1)] r(1) show ?thesis by (simp add: frame_set_frame_other)
    qed
    have 4: "page_table ?s' (page_id (pages ?s' ! i)) = Some (int i)"
      if "i < length (pages ?s')" "fst (clock (replacer ?s') ! i)" for i
    proof -
      have "i \<noteq> nat f"
      proof
        assume "i = nat f"
        with that(2) r1(4) nf len show False by simp
      qed
      with that r1(4) have i: "i \<noteq> nat f" "i < length (pages s)" "fst (clock (replacer s) ! i)"
        by simp_all
      have "page_id (pages s ! i) \<noteq> p"
      proof
        assume "page_id (pages s ! i) = p"
        with cand [OF i(2,3)] Some have "int i = f" by simp
        with i(1) show False by simp
      qed
      with cand [OF i(2,3)] i(1) show ?thesis by simp
    qed
    have "bpm_inv ?s'"
      unfolding bpm_inv_def using 1 2 3 4 by blast
    then show ?thesis by (simp add: s')
  qed
qed

theorem reachable_bpm_inv:
  assumes "0 < n" "n < 2 ^ 31" "reachable n s"
  shows "bpm_inv s"
  using assms(3)
proof (induction rule: reachable.induct)
  case (reach_new d)
  show ?case using assms(1,2) by (rule BufferPoolManager_new_inv)
next
  case (reach_fetch s p s' r)
  then show ?case by (blast intro: FetchPage_inv)
next
  case (reach_unpin s p d s' b)
  then show ?case by (blast intro: UnpinPage_inv)
next
  case (reach_flush s p s' b)
  then show ?case by (blast intro: FlushPage_inv)
next
  case (reach_new_page s s' out r)
  then show ?case by (blast intro: NewPage_inv)
next
  case (reach_delete s p s' b)
  then show ?case by (blast intro: DeletePage_inv)
next
  case (reach_flush_all s)
  then show ?case by (blast intro: FlushAllPages_inv)
next
  case (reach_write s f bytes)
  then show ?case by (blast intro: client_write_inv)
qed

section \<open>The example pool is a state of the pool\<close>

text \<open>
  The example pool is what a pool of two frames is after \<^verbatim>\<open>NewPage\<close>, \<^verbatim>\<open>NewPage\<close>, a
  write of the client to the frame of page 0, and \<^verbatim>\<open>UnpinPage(0, true)\<close>.
\<close>

lemma NewPage_first: "NewPage (BufferPoolManager_new 2 d_new) = Some (Inr (s_free, 0, Some 0))"
  by (simp add: NewPage_def BufferPoolManager_new_def d_new_def AllocatePage_def
      ReplaceAndUpdate_def ReplaceAndUpdate_io_def ReplaceAndUpdate_meta_def Size_def
      ClockReplacer_new_def emplace_def valid_frame_def frame_def set_frame_def s_free_def
      Page_new_def numeral_2_eq_2)

lemma NewPage_second: "NewPage s_free = Some (Inr (s_two, 1, Some 1))"
  by (simp add: NewPage_def AllocatePage_def
      ReplaceAndUpdate_def ReplaceAndUpdate_io_def ReplaceAndUpdate_meta_def Size_def
      d_ex_def emplace_def valid_frame_def frame_def set_frame_def s_free_def s_two_def
      Page_new_def)

lemma write_page_0: "set_frame s_two 0 ((frame s_two 0)\<lparr>data := bytes_ex\<rparr>) =
    s_two\<lparr>pages := [\<lparr>data = bytes_ex, page_id = 0, pin_count = 1, is_dirty = True\<rparr>,
                    \<lparr>data = zero_data, page_id = 1, pin_count = 1, is_dirty = True\<rparr>]\<rparr>"
  by (simp add: set_frame_def frame_def s_two_def)

lemma UnpinPage_page_0: "UnpinPage (s_two\<lparr>pages := [\<lparr>data = bytes_ex, page_id = 0, pin_count = 1, is_dirty = True\<rparr>,
                    \<lparr>data = zero_data, page_id = 1, pin_count = 1, is_dirty = True\<rparr>]\<rparr>) 0 True
    = Inr (s_ex, True)"
  by (simp add: UnpinPage_def s_two_def s_ex_def valid_frame_def frame_def set_frame_def
      Unpin_def size_t_of_frame_id_def ClockReplacer_new_def Let_def size_inc_def
      numeral_2_eq_2)

lemma reachable_s_ex: "reachable 2 s_ex"
proof -
  have "reachable 2 (BufferPoolManager_new 2 d_new)" by (rule reach_new)
  then have "reachable 2 s_free" using NewPage_first by (rule reach_new_page)
  then have r2: "reachable 2 s_two" using NewPage_second by (rule reach_new_page)
  have "valid_frame s_two 0" "0 < pin_count (frame s_two 0)"
    by (simp_all add: valid_frame_def frame_def s_two_def)
  with r2 have "reachable 2 (set_frame s_two 0 ((frame s_two 0)\<lparr>data := bytes_ex\<rparr>))"
    by (rule reach_write)
  then show ?thesis
    unfolding write_page_0 using UnpinPage_page_0 by (rule reach_unpin)
qed

section \<open>The buffer pool manager: unpinning a page that the caller has pinned\<close>

text \<open>
  \<^verbatim>\<open>UnpinPageImpl\<close> dereferences the result of \<^verbatim>\<open>page_table_.find\<close> without comparing it
  with \<^verbatim>\<open>end()\<close>, as \<^verbatim>\<open>FlushPageImpl\<close> and \<^verbatim>\<open>DeletePageImpl\<close> do. Whether a page that
  a caller has pinned is always in the page table depends on the page ids that
  \<^verbatim>\<open>FetchPage\<close> is called with: \<^verbatim>\<open>emplace\<close> keeps the entry of a page id that is already
  in the table, so a \<^verbatim>\<open>NewPage\<close> that is given an id which was fetched before it was
  allocated pins a frame that the page table does not map.
\<close>

lemma reachable_allocated_reachable: "reachable_allocated n s \<Longrightarrow> reachable n s"
  by (induction rule: reachable_allocated.induct) (auto intro: reachable.intros)

lemma victim_disk_next [simp]: "next_page_id (victim_disk s f) = next_page_id (disk_manager s)"
  by (simp add: victim_disk_def WritePage_def)

lemma ReadPage_next [simp]: "next_page_id (fst (ReadPage d p)) = next_page_id d"
  by (simp add: ReadPage_def)

lemma ReplaceAndUpdate_shape:
  assumes inv: "bpm_inv s" and avail: "free_list s \<noteq> [] \<or> 0 < rsize (replacer s)"
  shows "\<exists>s' f P pt0. ReplaceAndUpdate s new_id np = Some (Inr (s', f)) \<and> valid_frame s f \<and>
           pages s' = (pages s)[nat f := P] \<and> page_id P = new_id \<and> pin_count P = 1 \<and>
           page_table s' = emplace pt0 new_id f \<and>
           (pt0 = page_table s \<or>
            pt0 = (page_table s)(page_id (frame s f) := None) \<and>
            page_table s (page_id (frame s f)) = Some f) \<and>
           next_page_id (disk_manager s') = next_page_id (disk_manager s)"
proof (cases "free_list s")
  case (Cons f rest)
  have fr: "valid_frame s f"
    using inv Cons by (simp add: bpm_inv_def)
  let ?P = "if np then (frame s f)\<lparr>page_id := new_id, pin_count := 1, is_dirty := True\<rparr>
            else (frame s f)\<lparr>data := store (disk_manager s) new_id, page_id := new_id,
                pin_count := 1, is_dirty := False\<rparr>"
  let ?s' = "(set_frame s f ?P)\<lparr>free_list := rest, page_table := emplace (page_table s) new_id f,
                disk_manager := (if np then disk_manager s else fst (ReadPage (disk_manager s) new_id))\<rparr>"
  have "ReplaceAndUpdate s new_id np = Some (Inr (?s', f))"
    using fr ReplaceAndUpdate_io_free(1) [OF Cons, of new_id]
      ReplaceAndUpdate_io_free(2) [OF Cons fr, of new_id]
    by (cases np) (simp_all add: ReplaceAndUpdate_def ReplaceAndUpdate_meta_def)
  then show ?thesis
    using fr
    by (intro exI [of _ ?s'] exI [of _ f] exI [of _ ?P] exI [of _ "page_table s"]) simp
next
  case Nil
  with avail have pos: "0 < rsize (replacer s)" by simp
  from ReplaceAndUpdate_io_victim [OF inv Nil pos] obtain r1 f where
    vf: "valid_frame s f" and pres: "fst (clock (replacer s) ! nat f)"
    and io: "\<And>new_id. ReplaceAndUpdate_io s new_id True =
                Some (Inr (set_frame
                  (s\<lparr>page_table := emplace ((page_table s)(page_id (frame s f) := None)) new_id f,
                      replacer := r1, disk_manager := victim_disk s f\<rparr>) f
                  (ResetMemory (frame s f)), f))"
       "\<And>new_id. ReplaceAndUpdate_io s new_id False =
                Some (Inr (set_frame
                  (s\<lparr>page_table := emplace ((page_table s)(page_id (frame s f) := None)) new_id f,
                      replacer := r1,
                      disk_manager := fst (ReadPage (victim_disk s f) new_id)\<rparr>) f
                  ((frame s f)\<lparr>data := store (victim_disk s f) new_id\<rparr>), f))"
    by blast
  have own: "page_table s (page_id (frame s f)) = Some f"
    using inv vf pres valid_frame_nat [OF vf]
    by (auto simp: bpm_inv_def frame_def valid_frame_def)
  let ?P = "if np then (ResetMemory (frame s f))\<lparr>page_id := new_id, pin_count := 1, is_dirty := True\<rparr>
            else (frame s f)\<lparr>data := store (victim_disk s f) new_id, page_id := new_id,
                pin_count := 1, is_dirty := False\<rparr>"
  let ?pt0 = "(page_table s)(page_id (frame s f) := None)"
  let ?s' = "(set_frame s f ?P)\<lparr>replacer := r1, page_table := emplace ?pt0 new_id f,
           disk_manager := (if np then victim_disk s f else fst (ReadPage (victim_disk s f) new_id))\<rparr>"
  have "ReplaceAndUpdate s new_id np = Some (Inr (?s', f))"
    using vf io(1) [of new_id] io(2) [of new_id]
    by (cases np) (simp_all add: ReplaceAndUpdate_def ReplaceAndUpdate_meta_def)
  then show ?thesis
    using vf own
    by (intro exI [of _ ?s'] exI [of _ f] exI [of _ ?P] exI [of _ ?pt0]) simp
qed

lemma pinned_resident_install:
  assumes inv: "bpm_inv s" and pr: "pinned_resident s" and vf: "valid_frame s f"
    and fresh: "page_table s new_id = None" and new: "new_id < next_page_id (disk_manager s')"
    and nxt: "next_page_id (disk_manager s) \<le> next_page_id (disk_manager s')"
    and pg: "pages s' = (pages s)[nat f := P]" "page_id P = new_id"
    and pt: "page_table s' = emplace pt0 new_id f"
      "pt0 = page_table s \<or>
       pt0 = (page_table s)(page_id (frame s f) := None) \<and>
       page_table s (page_id (frame s f)) = Some f"
  shows "pinned_resident s'"
proof -
  have a: "\<And>p. page_table s p \<noteq> None \<Longrightarrow> p < next_page_id (disk_manager s)"
    and b: "\<And>i. i < length (pages s) \<Longrightarrow> 0 < pin_count (pages s ! i) \<Longrightarrow>
              page_table s (page_id (pages s ! i)) = Some (int i)"
    using pr by (auto simp: pinned_resident_def)
  have f0: "0 \<le> f" using vf by (simp add: valid_frame_def)
  have nf: "nat f < length (pages s)" using vf by (rule valid_frame_nat)
  have pt0_sub: "pt0 p = Some g \<Longrightarrow> page_table s p = Some g" for p g
    using pt(2) by (auto split: if_splits)
  have pt0_new: "pt0 new_id = None"
    using pt(2) fresh by auto
  have 1: "p < next_page_id (disk_manager s')" if "page_table s' p \<noteq> None" for p
  proof -
    from that obtain g where "emplace pt0 new_id f p = Some g" using pt(1) by auto
    from emplace_cases [OF this] show ?thesis
    proof
      assume "pt0 p = Some g"
      then have "page_table s p \<noteq> None" using pt0_sub by auto
      from a [OF this] nxt show ?thesis by simp
    next
      assume "p = new_id \<and> g = f \<and> pt0 new_id = None"
      with new show ?thesis by simp
    qed
  qed
  have 2: "page_table s' (page_id (pages s' ! i)) = Some (int i)"
    if "i < length (pages s')" "0 < pin_count (pages s' ! i)" for i
  proof (cases "i = nat f")
    case True
    then have "pages s' ! i = P" using pg(1) nf by simp
    with pg(2) pt(1) pt0_new True f0 show ?thesis by (simp add: emplace_def)
  next
    case False
    with that pg(1) have i: "i < length (pages s)" "0 < pin_count (pages s ! i)"
      "pages s' ! i = pages s ! i"
      by simp_all
    have "pt0 (page_id (pages s ! i)) = Some (int i)"
      using pt(2)
    proof
      assume "pt0 = page_table s"
      with b [OF i(1,2)] show ?thesis by simp
    next
      assume e: "pt0 = (page_table s)(page_id (frame s f) := None) \<and>
        page_table s (page_id (frame s f)) = Some f"
      have "page_id (pages s ! i) \<noteq> page_id (frame s f)"
      proof
        assume "page_id (pages s ! i) = page_id (frame s f)"
        with b [OF i(1,2)] e have "int i = f" by simp
        with False show False by simp
      qed
      with b [OF i(1,2)] e show ?thesis by simp
    qed
    then show ?thesis using pt(1) i(3) by (simp add: emplace_keeps)
  qed
  show ?thesis
    unfolding pinned_resident_def using 1 2 by blast
qed

lemma pinned_resident_same_ids:
  assumes pr: "pinned_resident s"
    and tab: "page_table s' = page_table s"
    and nxt: "next_page_id (disk_manager s) \<le> next_page_id (disk_manager s')"
    and len: "length (pages s') = length (pages s)"
    and fr: "\<forall>i<length (pages s). page_id (pages s' ! i) = page_id (pages s ! i) \<and>
        (0 < pin_count (pages s' ! i) \<longrightarrow>
           0 < pin_count (pages s ! i) \<or> page_table s (page_id (pages s ! i)) = Some (int i))"
  shows "pinned_resident s'"
  using assms unfolding pinned_resident_def by (auto; force)


lemma pinned_resident_update_frame:
  assumes pr: "pinned_resident s"
    and pg: "pages s' = (pages s)[k := P]"
    and pid: "page_id P = page_id (pages s ! k)"
    and pin: "0 < pin_count P \<Longrightarrow>
        0 < pin_count (pages s ! k) \<or> page_table s (page_id P) = Some (int k)"
    and tab: "page_table s' = page_table s"
    and nxt: "next_page_id (disk_manager s) \<le> next_page_id (disk_manager s')"
  shows "pinned_resident s'"
proof -
  have a: "\<And>p. page_table s p \<noteq> None \<Longrightarrow> p < next_page_id (disk_manager s)"
    and b: "\<And>i. i < length (pages s) \<Longrightarrow> 0 < pin_count (pages s ! i) \<Longrightarrow>
              page_table s (page_id (pages s ! i)) = Some (int i)"
    using pr by (auto simp: pinned_resident_def)
  have 1: "p < next_page_id (disk_manager s')" if "page_table s' p \<noteq> None" for p
    using a [of p] that tab nxt by simp
  have 2: "page_table s' (page_id (pages s' ! i)) = Some (int i)"
    if "i < length (pages s')" "0 < pin_count (pages s' ! i)" for i
  proof (cases "i = k")
    case True
    with that pg have k: "k < length (pages s)" "pages s' ! i = P" "0 < pin_count P" by simp_all
    from pin [OF k(3)] have "page_table s (page_id P) = Some (int k)"
    proof
      assume "0 < pin_count (pages s ! k)"
      from b [OF k(1) this] pid show ?thesis by simp
    qed
    with True k(2) tab show ?thesis by simp
  next
    case False
    with that pg have "i < length (pages s)" "0 < pin_count (pages s ! i)"
      "pages s' ! i = pages s ! i"
      by simp_all
    with b [of i] tab show ?thesis by simp
  qed
  show ?thesis
    unfolding pinned_resident_def using 1 2 by blast
qed

lemma pinned_resident_new: "pinned_resident (BufferPoolManager_new n d)"
  by (simp add: pinned_resident_def BufferPoolManager_new_def Page_new_def)

lemma pinned_resident_disk:
  assumes "pinned_resident s" "next_page_id (disk_manager s) \<le> next_page_id d"
  shows "pinned_resident (s\<lparr>disk_manager := d\<rparr>)"
proof -
  have "p < next_page_id d" if "page_table s p \<noteq> None" for p
  proof -
    from assms(1) that have "p < next_page_id (disk_manager s)"
      by (simp add: pinned_resident_def)
    with assms(2) show ?thesis by simp
  qed
  with assms(1) show ?thesis by (simp add: pinned_resident_def)
qed

lemma pinned_resident_fresh:
  "pinned_resident s \<Longrightarrow> page_table s (next_page_id (disk_manager s)) = None"
  by (cases "page_table s (next_page_id (disk_manager s))") (auto simp: pinned_resident_def)

lemma NewPage_pinned_resident:
  assumes inv: "bpm_inv s" and pr: "pinned_resident s"
    and res: "NewPage s = Some (Inr (s', out, r))"
  shows "pinned_resident s'"
proof (cases "free_list s = [] \<and> Size (replacer s) = 0")
  case True
  with res pr show ?thesis by (simp add: NewPage_def)
next
  case False
  let ?id = "next_page_id (disk_manager s)"
  let ?s0 = "s\<lparr>disk_manager := fst (AllocatePage (disk_manager s))\<rparr>"
  have nx: "next_page_id (disk_manager ?s0) = ?id + 1"
    by (simp add: AllocatePage_def)
  have inv0: "bpm_inv ?s0" using inv by simp
  have pr0: "pinned_resident ?s0"
    using pr by (rule pinned_resident_disk) (simp add: AllocatePage_def)
  from False have "free_list ?s0 \<noteq> [] \<or> 0 < rsize (replacer ?s0)" by (auto simp: Size_def)
  from ReplaceAndUpdate_shape [OF inv0 this, of ?id True] obtain s1 f P pt0 where
    ru: "ReplaceAndUpdate ?s0 ?id True = Some (Inr (s1, f))" and vf: "valid_frame ?s0 f"
    and pg: "pages s1 = (pages ?s0)[nat f := P]" "page_id P = ?id"
    and pt: "page_table s1 = emplace pt0 ?id f"
      "pt0 = page_table ?s0 \<or>
       pt0 = (page_table ?s0)(page_id (frame ?s0 f) := None) \<and>
       page_table ?s0 (page_id (frame ?s0 f)) = Some f"
    and nx1: "next_page_id (disk_manager s1) = next_page_id (disk_manager ?s0)"
    by blast
  have s': "s' = s1"
    using res False ru by (simp add: NewPage_def AllocatePage_def)
  have fresh: "page_table ?s0 ?id = None"
    using pinned_resident_fresh [OF pr] by simp
  have lt: "?id < next_page_id (disk_manager s1)"
    unfolding nx1 nx by simp
  have le: "next_page_id (disk_manager ?s0) \<le> next_page_id (disk_manager s1)"
    unfolding nx1 by simp
  have "pinned_resident s1"
    using inv0 pr0 vf fresh lt le pg pt by (rule pinned_resident_install)
  then show ?thesis by (simp add: s')
qed

lemma FetchPage_pinned_resident:
  assumes inv: "bpm_inv s" and pr: "pinned_resident s"
    and alloc: "p < next_page_id (disk_manager s)"
    and res: "FetchPage s p = Some (Inr (s', r))"
  shows "pinned_resident s'"
proof (cases "page_table s p")
  case None
  show ?thesis
  proof (cases "free_list s = [] \<and> Size (replacer s) = 0")
    case True
    with None res pr show ?thesis by (simp add: FetchPage_def)
  next
    case False
    then have "free_list s \<noteq> [] \<or> 0 < rsize (replacer s)" by (auto simp: Size_def)
    from ReplaceAndUpdate_shape [OF inv this, of p False] obtain s1 f P pt0 where
      ru: "ReplaceAndUpdate s p False = Some (Inr (s1, f))" and vf: "valid_frame s f"
      and pg: "pages s1 = (pages s)[nat f := P]" "page_id P = p"
      and pt: "page_table s1 = emplace pt0 p f"
        "pt0 = page_table s \<or>
         pt0 = (page_table s)(page_id (frame s f) := None) \<and>
         page_table s (page_id (frame s f)) = Some f"
      and nx1: "next_page_id (disk_manager s1) = next_page_id (disk_manager s)"
      by blast
    have s': "s' = s1"
      using res None False ru by (simp add: FetchPage_def)
    have lt: "p < next_page_id (disk_manager s1)"
      unfolding nx1 by (rule alloc)
    have le: "next_page_id (disk_manager s) \<le> next_page_id (disk_manager s1)"
      unfolding nx1 by simp
    have "pinned_resident s1"
      using inv pr vf None lt le pg pt by (rule pinned_resident_install)
    then show ?thesis by (simp add: s')
  qed
next
  case (Some f)
  note b = bpm_inv_resident [OF inv Some]
  let ?P = "(frame s f)\<lparr>pin_count := pin_count (frame s f) + 1\<rparr>"
  have s': "pages s' = (pages s)[nat f := ?P]" "page_table s' = page_table s"
      "disk_manager s' = disk_manager s"
    using res Some b(1)
    by (auto simp: FetchPage_def Let_def set_frame_def split: if_splits sum.splits)
  show ?thesis
    using pr s'(1)
  proof (rule pinned_resident_update_frame)
    show "page_id ?P = page_id (pages s ! nat f)" by (simp add: frame_def)
    show "0 < pin_count (pages s ! nat f) \<or> page_table s (page_id ?P) = Some (int (nat f))"
      using Some b(2,3) by simp
  qed (simp_all add: s')
qed

lemma UnpinPage_pinned_resident:
  assumes inv: "bpm_inv s" and pr: "pinned_resident s"
    and res: "UnpinPage s p d = Inr (s', b)"
  shows "pinned_resident s'"
proof (cases "page_table s p")
  case None
  with res show ?thesis by (simp add: UnpinPage_def)
next
  case (Some f)
  note r = bpm_inv_resident [OF inv Some]
  let ?P = "(frame s f)\<lparr>pin_count := pin_count (frame s f) - 1,
              is_dirty := is_dirty (frame s f) \<or> d\<rparr>"
  show ?thesis
  proof (cases "pin_count (frame s f) \<le> 0")
    case True
    with res Some r(1) pr show ?thesis by (simp add: UnpinPage_def)
  next
    case False
    have "\<exists>r1. s' = (set_frame s f ?P)\<lparr>replacer := r1\<rparr>"
    proof (cases "pin_count (frame s f) = 1")
      case True
      from Unpin_inv [OF r(5,3,4)] obtain r1 where "Unpin (replacer s) f = Inr r1"
        by blast
      with res Some r(1) True have "s' = (set_frame s f ?P)\<lparr>replacer := r1\<rparr>"
        by (simp add: UnpinPage_def Let_def)
      then show ?thesis by blast
    next
      case F1: False
      with res Some r(1) False have "s' = set_frame s f ?P"
        by (simp add: UnpinPage_def Let_def)
      then have "s' = (set_frame s f ?P)\<lparr>replacer := replacer s\<rparr>"
        by (simp add: set_frame_def)
      then show ?thesis by blast
    qed
    then obtain r1 where s': "s' = (set_frame s f ?P)\<lparr>replacer := r1\<rparr>" by blast
    have pg: "pages s' = (pages s)[nat f := ?P]"
      by (simp add: s' set_frame_def)
    show ?thesis
      using pr pg
    proof (rule pinned_resident_update_frame)
      show "page_id ?P = page_id (pages s ! nat f)" by (simp add: frame_def)
      show "0 < pin_count (pages s ! nat f) \<or> page_table s (page_id ?P) = Some (int (nat f))"
        using Some r(2,3) by simp
    qed (simp_all add: s')
  qed
qed

lemma FlushPage_pinned_resident:
  assumes pr: "pinned_resident s" and res: "FlushPage s p = Inr (s', b)"
  shows "pinned_resident s'"
proof -
  have "s' = s \<or> (\<exists>f. pages s' = (pages s)[nat f := (frame s f)\<lparr>is_dirty := False\<rparr>] \<and>
      page_table s' = page_table s \<and>
      next_page_id (disk_manager s') = next_page_id (disk_manager s))"
    using res
    by (auto simp: FlushPage_def Let_def set_frame_def WritePage_def
        split: option.splits if_splits)
  then show ?thesis
  proof
    assume "s' = s"
    with pr show ?thesis by simp
  next
    assume "\<exists>f. pages s' = (pages s)[nat f := (frame s f)\<lparr>is_dirty := False\<rparr>] \<and>
      page_table s' = page_table s \<and>
      next_page_id (disk_manager s') = next_page_id (disk_manager s)"
    then obtain f where a: "pages s' = (pages s)[nat f := (frame s f)\<lparr>is_dirty := False\<rparr>]"
      "page_table s' = page_table s"
      "next_page_id (disk_manager s') = next_page_id (disk_manager s)"
      by blast
    show ?thesis
      using pr a(1)
      by (rule pinned_resident_update_frame) (simp_all add: a frame_def)
  qed
qed

lemma FlushAll_fold_next:
  "next_page_id (disk_manager (foldl FlushAll_step s [0..<k])) = next_page_id (disk_manager s)"
  by (induction k) (simp_all add: FlushAll_step_def Let_def WritePage_def)

lemma FlushAllPages_pinned_resident:
  assumes pr: "pinned_resident s"
  shows "pinned_resident (FlushAllPages s)"
proof -
  note fa = FlushAll_fold [of "length (pages s)" s]
  show ?thesis
    using pr
  proof (rule pinned_resident_same_ids)
    show "\<forall>i<length (pages s).
        page_id (pages (FlushAllPages s) ! i) = page_id (pages s ! i) \<and>
        (0 < pin_count (pages (FlushAllPages s) ! i) \<longrightarrow>
           0 < pin_count (pages s ! i) \<or> page_table s (page_id (pages s ! i)) = Some (int i))"
      using fa by (simp add: FlushAllPages_def pool_size_def)
  qed (use fa in \<open>simp_all add: FlushAllPages_def pool_size_def FlushAll_fold_next\<close>)
qed

lemma client_write_pinned_resident:
  assumes pr: "pinned_resident s"
  shows "pinned_resident (set_frame s f ((frame s f)\<lparr>data := bytes\<rparr>))"
  using pr
  by (rule pinned_resident_update_frame [where k = "nat f" and P = "(frame s f)\<lparr>data := bytes\<rparr>"])
     (simp_all add: set_frame_def frame_def)

lemma DeletePage_pinned_resident:
  assumes inv: "bpm_inv s" and pr: "pinned_resident s"
    and res: "DeletePage s p = Inr (s', b)"
  shows "pinned_resident s'"
proof (cases "page_table s p")
  case None
  with res have "s' = s\<lparr>disk_manager := DeallocatePage (disk_manager s) p\<rparr>"
    by (auto simp: DeletePage_def)
  moreover have "pinned_resident (s\<lparr>disk_manager := DeallocatePage (disk_manager s) p\<rparr>)"
    using pr by (rule pinned_resident_disk) (simp add: DeallocatePage_def)
  ultimately show ?thesis by simp
next
  case (Some f)
  note r = bpm_inv_resident [OF inv Some]
  have a: "\<And>q. page_table s q \<noteq> None \<Longrightarrow> q < next_page_id (disk_manager s)"
    and c: "\<And>i. i < length (pages s) \<Longrightarrow> 0 < pin_count (pages s ! i) \<Longrightarrow>
              page_table s (page_id (pages s ! i)) = Some (int i)"
    using pr by (auto simp: pinned_resident_def)
  show ?thesis
  proof (cases "0 < pin_count (frame s f)")
    case True
    with res Some r(1) pr show ?thesis by (simp add: DeletePage_def)
  next
    case False
    let ?P = "(frame s f)\<lparr>data := zero_data, page_id := INVALID_PAGE_ID, is_dirty := False\<rparr>"
    have s': "pages s' = (pages s)[nat f := ?P]" "page_table s' = (page_table s)(p := None)"
      "next_page_id (disk_manager s') = next_page_id (disk_manager s)"
      using res Some r(1) False
      by (auto simp: DeletePage_def Let_def ResetMemory_def set_frame_def DeallocatePage_def
          split: sum.splits)
    have 1: "q < next_page_id (disk_manager s')" if "page_table s' q \<noteq> None" for q
      using that a [of q] s'(2,3) by (auto split: if_splits)
    have 2: "page_table s' (page_id (pages s' ! i)) = Some (int i)"
      if "i < length (pages s')" "0 < pin_count (pages s' ! i)" for i
    proof -
      have ne: "i \<noteq> nat f"
      proof
        assume "i = nat f"
        with that s'(1) False show False by (simp add: frame_def)
      qed
      with that s'(1) have i: "i < length (pages s)" "0 < pin_count (pages s ! i)"
        "pages s' ! i = pages s ! i"
        by simp_all
      have "page_id (pages s ! i) \<noteq> p"
      proof
        assume "page_id (pages s ! i) = p"
        with c [OF i(1,2)] Some have "int i = f" by simp
        with ne show False by simp
      qed
      with c [OF i(1,2)] i(3) s'(2) show ?thesis by simp
    qed
    show ?thesis
      unfolding pinned_resident_def using 1 2 by blast
  qed
qed

text \<open>
  When \<^verbatim>\<open>FetchPage\<close> is called only with allocated page ids, the pool invariant holds
  and every pinned frame is the page table's frame for its page.
\<close>

theorem reachable_allocated_invs:
  assumes "0 < n" "n < 2 ^ 31" "reachable_allocated n s"
  shows "bpm_inv s \<and> pinned_resident s"
  using assms(3)
proof (induction rule: reachable_allocated.induct)
  case (ra_new d)
  show ?case
    using BufferPoolManager_new_inv [OF assms(1,2)] pinned_resident_new by simp
next
  case (ra_fetch s p s' r)
  then show ?case by (blast intro: FetchPage_inv FetchPage_pinned_resident)
next
  case (ra_unpin s p d s' b)
  then show ?case by (blast intro: UnpinPage_inv UnpinPage_pinned_resident)
next
  case (ra_flush s p s' b)
  then show ?case by (blast intro: FlushPage_inv FlushPage_pinned_resident)
next
  case (ra_new_page s s' out r)
  then show ?case by (blast intro: NewPage_inv NewPage_pinned_resident)
next
  case (ra_delete s p s' b)
  then show ?case by (blast intro: DeletePage_inv DeletePage_pinned_resident)
next
  case (ra_flush_all s)
  then show ?case by (blast intro: FlushAllPages_inv FlushAllPages_pinned_resident)
next
  case (ra_write s f bytes)
  then show ?case by (blast intro: client_write_inv client_write_pinned_resident)
qed


lemma FetchPage_unallocated:
  "FetchPage (BufferPoolManager_new 2 d_new) 0 = Some (Inr (s_c1, Some 0))"
  by (simp add: FetchPage_def BufferPoolManager_new_def d_new_def ReadPage_def
      ReplaceAndUpdate_def ReplaceAndUpdate_io_def ReplaceAndUpdate_meta_def Size_def
      ClockReplacer_new_def emplace_def valid_frame_def frame_def set_frame_def s_c1_def
      Page_new_def numeral_2_eq_2)

lemma NewPage_same_id: "NewPage s_c1 = Some (Inr (s_c2, 0, Some 1))"
  by (simp add: NewPage_def AllocatePage_def
      ReplaceAndUpdate_def ReplaceAndUpdate_io_def ReplaceAndUpdate_meta_def Size_def
      emplace_def valid_frame_def frame_def set_frame_def s_c1_def s_c2_def
      Page_new_def)

lemma UnpinPage_fetched: "UnpinPage s_c2 0 False = Inr (s_c3, True)"
  by (simp add: UnpinPage_def s_c2_def s_c3_def valid_frame_def frame_def set_frame_def
      Unpin_def size_t_of_frame_id_def ClockReplacer_new_def Let_def size_inc_def
      numeral_2_eq_2)

lemma NewPage_evicts: "NewPage s_c3 = Some (Inr (s_col, 1, Some 0))"
  by (simp add: NewPage_def AllocatePage_def
      ReplaceAndUpdate_def ReplaceAndUpdate_io_def ReplaceAndUpdate_meta_def Size_def
      emplace_def valid_frame_def frame_def set_frame_def s_c3_def s_col_def
      Victim_def Victim_loop.simps Let_def size_dec_def frame_id_of_size_t_def
      Pin_def size_t_of_frame_id_def ResetMemory_def)

lemma reachable_s_col: "reachable 2 s_col"
proof -
  have "reachable 2 (BufferPoolManager_new 2 d_new)" by (rule reach_new)
  then have "reachable 2 s_c1" using FetchPage_unallocated by (rule reach_fetch)
  then have "reachable 2 s_c2" using NewPage_same_id by (rule reach_new_page)
  then have "reachable 2 s_c3" using UnpinPage_fetched by (rule reach_unpin)
  then show ?thesis using NewPage_evicts by (rule reach_new_page)
qed

lemma reachable_allocated_s_ex: "reachable_allocated 2 s_ex"
proof -
  have "reachable_allocated 2 (BufferPoolManager_new 2 d_new)" by (rule ra_new)
  then have "reachable_allocated 2 s_free" using NewPage_first by (rule ra_new_page)
  then have r2: "reachable_allocated 2 s_two" using NewPage_second by (rule ra_new_page)
  have "valid_frame s_two 0" "0 < pin_count (frame s_two 0)"
    by (simp_all add: valid_frame_def frame_def s_two_def)
  with r2 have "reachable_allocated 2 (set_frame s_two 0 ((frame s_two 0)\<lparr>data := bytes_ex\<rparr>))"
    by (rule ra_write)
  then show ?thesis
    unfolding write_page_0 using UnpinPage_page_0 by (rule ra_unpin)
qed

text \<open>
  Claim C9 as stated fails, in a state that the pool reaches. On a new pool of two frames
  \<^verbatim>\<open>FetchPage(0)\<close> puts page 0 in frame 0; \<^verbatim>\<open>NewPage\<close> is given the id 0 and pins
  frame 1 for it, while the page table keeps frame 0 for page 0; after \<^verbatim>\<open>UnpinPage(0, false)\<close>
  a second \<^verbatim>\<open>NewPage\<close> evicts frame 0 and erases page 0 from the page table. Frame 1
  still holds page 0 with a pin count of 1, page 0 is not in the page table, and
  \<^verbatim>\<open>UnpinPage(0, false)\<close> dereferences the end iterator.
\<close>

theorem UnpinPage_counterexample:
  "FetchPage (BufferPoolManager_new 2 d_new) 0 = Some (Inr (s_c1, Some 0)) \<and>
   NewPage s_c1 = Some (Inr (s_c2, 0, Some 1)) \<and>
   UnpinPage s_c2 0 False = Inr (s_c3, True) \<and>
   NewPage s_c3 = Some (Inr (s_col, 1, Some 0)) \<and>
   reachable 2 s_col \<and> bpm_inv s_col \<and>
   valid_frame s_col 1 \<and> page_id (frame s_col 1) = 0 \<and> 0 < pin_count (frame s_col 1) \<and>
   page_table s_col 0 = None \<and> UnpinPage s_col 0 False = Inl EndIteratorDeref"
proof -
  have "bpm_inv s_col"
    using reachable_s_col by (intro reachable_bpm_inv [of 2]) simp_all
  moreover have "valid_frame s_col 1 \<and> page_id (frame s_col 1) = 0 \<and>
      0 < pin_count (frame s_col 1) \<and> page_table s_col 0 = None \<and>
      UnpinPage s_col 0 False = Inl EndIteratorDeref"
    by (simp add: s_col_def valid_frame_def frame_def UnpinPage_def)
  ultimately show ?thesis
    using FetchPage_unallocated NewPage_same_id UnpinPage_fetched NewPage_evicts reachable_s_col
    by simp
qed

text \<open>
  Claim C9, amended. \<^verbatim>\<open>UnpinPage\<close> dereferences the result of the page table lookup
  without a check: the call dereferences the end iterator exactly when the page is not in
  the page table. In every state that a pool of \<open>n\<close> frames reaches while \<^verbatim>\<open>FetchPage\<close>
  is called only with page ids that \<^verbatim>\<open>AllocatePage\<close> has already returned, a page \<open>p\<close>
  on which a caller holds a pin (a frame \<open>f\<close> holds \<open>p\<close> with a positive pin count) is in
  the page table, with frame \<open>f\<close>; \<^verbatim>\<open>UnpinPage(p, d)\<close> does not dereference the end iterator,
  and returns true.
\<close>

theorem UnpinPage_pinned:
  assumes "0 < n" "n < 2 ^ 31" "reachable_allocated n s"
    and "valid_frame s f" "page_id (frame s f) = p" "0 < pin_count (frame s f)"
  shows "page_table s p = Some f \<and>
         UnpinPage s p d \<noteq> Inl EndIteratorDeref \<and>
         (\<exists>s'. UnpinPage s p d = Inr (s', True)) \<and>
         (\<forall>q. UnpinPage s q d = Inl EndIteratorDeref \<longleftrightarrow> page_table s q = None)"
proof -
  from reachable_allocated_invs [OF assms(1-3)] have inv: "bpm_inv s" and pr: "pinned_resident s"
    by simp_all
  have nf: "nat f < length (pages s)" using assms(4) by (rule valid_frame_nat)
  have f0: "0 \<le> f" using assms(4) by (simp add: valid_frame_def)
  have "page_table s (page_id (pages s ! nat f)) = Some (int (nat f))"
    using pr nf assms(6) by (simp add: pinned_resident_def frame_def)
  with assms(5) f0 have tab: "page_table s p = Some f" by (simp add: frame_def)
  note r = bpm_inv_resident [OF inv tab]
  have ok: "\<exists>s'. UnpinPage s p d = Inr (s', True)"
  proof (cases "pin_count (frame s f) = 1")
    case True
    from Unpin_inv [OF r(5,3,4)] obtain r1 where "Unpin (replacer s) f = Inr r1"
      by blast
    with True tab r(1) show ?thesis by (simp add: UnpinPage_def Let_def)
  next
    case False
    with assms(6) tab r(1) show ?thesis by (simp add: UnpinPage_def Let_def)
  qed
  then have ne: "UnpinPage s p d \<noteq> Inl EndIteratorDeref" by auto
  have iff: "\<forall>q. UnpinPage s q d = Inl EndIteratorDeref \<longleftrightarrow> page_table s q = None"
    by (auto simp: UnpinPage_def Unpin_def Let_def split: option.splits sum.splits if_splits)
  from tab ne ok iff show ?thesis by (intro conjI)
qed

text \<open>
  In the example pool page 1 is pinned in frame 1 and \<^verbatim>\<open>UnpinPage(1, false)\<close> returns
  true; page 7 is not in the page table and \<^verbatim>\<open>UnpinPage(7, false)\<close> dereferences the end
  iterator.
\<close>

theorem UnpinPage_pinned_witness:
  "reachable_allocated 2 s_ex \<and> valid_frame s_ex 1 \<and> page_id (frame s_ex 1) = 1 \<and>
   0 < pin_count (frame s_ex 1) \<and> page_table s_ex 1 = Some 1 \<and>
   UnpinPage s_ex 1 False \<noteq> Inl EndIteratorDeref \<and>
   (\<exists>s'. UnpinPage s_ex 1 False = Inr (s', True)) \<and>
   page_table s_ex 7 = None \<and> UnpinPage s_ex 7 False = Inl EndIteratorDeref"
proof -
  have a: "valid_frame s_ex 1" "page_id (frame s_ex 1) = 1" "0 < pin_count (frame s_ex 1)"
    "page_table s_ex 7 = None"
    by (simp_all add: s_ex_def valid_frame_def frame_def)
  have n: "0 < (2::nat)" "(2::nat) < 2 ^ 31" by simp_all
  note t = UnpinPage_pinned [OF n reachable_allocated_s_ex a(1-3), of False]
  from t a reachable_allocated_s_ex show ?thesis by simp
qed

end
